theory Spec2Isabelle
  imports Main "HOL-Library.Monad_Syntax"
begin

section \<open>Data model (auto.h)\<close>

text \<open>
  \<^verbatim>\<open>typedef int state_t;\<close>  State ids are C ints; every value the program stores is
  bounded by \<open>MAX_STATES\<close> in absolute value, so unbounded integers model them without
  wrap-around.  A C array is modelled by the function from its index to its cell.
\<close>

type_synonym state_t = int

definition MAX_STATES :: int where
  "MAX_STATES = 50"

definition AB_SIZE :: int where
  "AB_SIZE = 128"

record automaton_t =
  nstates :: int
  nab :: int
  mat :: "state_t \<Rightarrow> int \<Rightarrow> state_t"
  init_state :: state_t
  accept :: "int \<Rightarrow> state_t"
  state_attrib :: "state_t \<Rightarrow> char"

section \<open>Union-Find (ufind.c)\<close>

text \<open>
  The first loop of \<^verbatim>\<open>find\<close>:
  \<^verbatim>\<open>for (i = elem; rep[i] > 0; i = rep[i]) ;\<close>
  It runs forever on a cyclic parent chain, hence the option result.
\<close>

partial_function (option) find_root :: "(int \<Rightarrow> state_t) \<Rightarrow> state_t \<Rightarrow> state_t option" where
  "find_root rep i = (if rep i > 0 then find_root rep (rep i) else Some i)"

text \<open>
  The second loop of \<^verbatim>\<open>find\<close> (path compression):
  \<^verbatim>\<open>while (rep[elem] > 0) { temp = elem; elem = rep[elem]; rep[temp] = i; }\<close>
\<close>

partial_function (option) compress_path ::
  "state_t \<Rightarrow> (int \<Rightarrow> state_t) \<Rightarrow> state_t \<Rightarrow> (int \<Rightarrow> state_t) option" where
  "compress_path i rep elem =
     (if rep elem > 0 then compress_path i (rep(elem := i)) (rep elem) else Some rep)"

declare find_root.simps [code]
declare compress_path.simps [code]

definition find_c :: "state_t \<Rightarrow> (int \<Rightarrow> state_t) \<Rightarrow> (state_t \<times> (int \<Rightarrow> state_t)) option" where
  "find_c elem rep =
     do { i \<leftarrow> find_root rep elem;
          rep' \<leftarrow> compress_path i rep elem;
          Some (i, rep') }"

definition Union_c :: "state_t \<Rightarrow> state_t \<Rightarrow> (int \<Rightarrow> state_t) \<Rightarrow> (int \<Rightarrow> state_t) option" where
  "Union_c elem1 elem2 rep =
     do { (i, rep1) \<leftarrow> find_c elem1 rep;
          (j, rep2) \<leftarrow> find_c elem2 rep1;
          Some (if i \<noteq> j
                then (if rep2 j > rep2 i
                      then (rep2(i := rep2 i + (rep2 j - 1)))(j := i)
                      else (rep2(j := rep2 j + (rep2 i - 1)))(i := j))
                else rep2) }"

text \<open>
  The root of the parent chain of an element: follow positive cells until a cell that is
  zero or negative.
\<close>

inductive chain_root :: "(int \<Rightarrow> state_t) \<Rightarrow> state_t \<Rightarrow> state_t \<Rightarrow> bool" for rep where
  at_root: "rep e \<le> 0 \<Longrightarrow> chain_root rep e e"
| up: "rep e > 0 \<Longrightarrow> chain_root rep (rep e) r \<Longrightarrow> chain_root rep e r"

text \<open>A partition vector over \<open>1..n\<close> is well formed when every parent chain that starts
  in range ends at a root in range.\<close>

definition well_formed :: "int \<Rightarrow> (int \<Rightarrow> state_t) \<Rightarrow> bool" where
  "well_formed n rep \<longleftrightarrow> (\<forall>e. 1 \<le> e \<and> e \<le> n \<longrightarrow> (\<exists>r. 1 \<le> r \<and> r \<le> n \<and> chain_root rep e r))"

text \<open>\<open>redirected rep r rep'\<close>: \<open>rep'\<close> is \<open>rep\<close> with some non-root cells, whose chain
  ends at \<open>r\<close>, pointed at \<open>r\<close> directly.\<close>

definition redirected :: "(int \<Rightarrow> state_t) \<Rightarrow> state_t \<Rightarrow> (int \<Rightarrow> state_t) \<Rightarrow> bool" where
  "redirected rep r rep' \<longleftrightarrow>
     (\<forall>x. rep' x = rep x \<or> (rep x > 0 \<and> rep' x = r \<and> r > 0 \<and> chain_root rep x r))"

section \<open>Dead states (dead.c)\<close>

text \<open>
  \<^verbatim>\<open>static char connected[MAX_STATES+1][MAX_STATES+1];\<close> is a global that survives from one
  call to the next, so the functions of the module take it and return it.
\<close>

type_synonym conn_t = "state_t \<Rightarrow> state_t \<Rightarrow> bool"

definition set_conn :: "conn_t \<Rightarrow> state_t \<Rightarrow> state_t \<Rightarrow> bool \<Rightarrow> conn_t" where
  "set_conn connected i j v = connected(i := (connected i)(j := v))"

definition init_connections ::
  "(state_t \<Rightarrow> int \<Rightarrow> state_t) \<Rightarrow> int \<Rightarrow> int \<Rightarrow> conn_t \<Rightarrow> conn_t" where
  "init_connections transitions_mat n_states n_ab connected =
     fold (\<lambda>src c.
             let c1 = fold (\<lambda>dest c. set_conn c src dest False) [1..n_states] c;
                 c2 = set_conn c1 src src True
             in fold (\<lambda>i c. let dest = transitions_mat src i
                             in if dest > 0 then set_conn c src dest True else c)
                     [1..n_ab] c2)
          [1..n_states] connected"

definition t_closure :: "int \<Rightarrow> conn_t \<Rightarrow> conn_t" where
  "t_closure n_states connected =
     fold (\<lambda>i c.
             fold (\<lambda>j c.
                     if c j i
                     then fold (\<lambda>k c. if c i k then set_conn c j k True else c) [1..n_states] c
                     else c)
                  [1..n_states] c)
          [1..n_states] connected"

text \<open>
  The scan of the accept list,
  \<^verbatim>\<open>for (j = 0; (accept_st = dfa->accept[j]) != 0; j++) if (connected[i][accept_st]) break;\<close>
  returning the last value of \<^verbatim>\<open>accept_st\<close>.  It stops only at a zero cell or at a
  connected accept state.
\<close>

partial_function (option) scan_accept ::
  "(int \<Rightarrow> state_t) \<Rightarrow> (state_t \<Rightarrow> bool) \<Rightarrow> int \<Rightarrow> state_t option" where
  "scan_accept acc row j =
     (if acc j \<noteq> 0
      then (if row (acc j) then Some (acc j) else scan_accept acc row (j + 1))
      else Some (acc j))"

declare scan_accept.simps [code]

text \<open>A loop over a list whose body may fail to return.\<close>

fun for_each :: "('a \<Rightarrow> 's \<Rightarrow> 's option) \<Rightarrow> 'a list \<Rightarrow> 's \<Rightarrow> 's option" where
  "for_each body [] s = Some s"
| "for_each body (x # xs) s = Option.bind (body x s) (for_each body xs)"

text \<open>The body of the first loop of \<^verbatim>\<open>find_dead_states\<close>: a state not reachable from the
  initial state is marked dead.\<close>

definition mark_unreachable :: "conn_t \<Rightarrow> state_t \<Rightarrow> automaton_t \<Rightarrow> automaton_t" where
  "mark_unreachable connected i dfa =
     (if \<not> connected (init_state dfa) i
      then dfa\<lparr>state_attrib := (state_attrib dfa)(i := CHR ''D'')\<rparr>
      else dfa)"

text \<open>The body of the second loop: a state that is neither dead nor accepting and reaches
  no state of the accept list is marked dead.\<close>

definition mark_not_accepting :: "conn_t \<Rightarrow> state_t \<Rightarrow> automaton_t \<Rightarrow> automaton_t option" where
  "mark_not_accepting connected i dfa =
     (let attrib = state_attrib dfa i
      in if attrib = CHR ''D'' \<or> attrib = CHR ''A'' then Some dfa
         else do {
           accept_st \<leftarrow> scan_accept (accept dfa) (connected i) 0;
           Some (if accept_st = 0
                 then dfa\<lparr>state_attrib := (state_attrib dfa)(i := CHR ''D'')\<rparr>
                 else dfa) })"

definition find_dead_states :: "conn_t \<Rightarrow> automaton_t \<Rightarrow> (conn_t \<times> automaton_t) option" where
  "find_dead_states connected0 dfa =
     (let connected = t_closure (nstates dfa)
                        (init_connections (mat dfa) (nstates dfa) (nab dfa) connected0);
          dfa1 = fold (mark_unreachable connected) [1..nstates dfa] dfa
      in do {
        dfa2 \<leftarrow> for_each (mark_not_accepting connected) [1..nstates dfa1] dfa1;
        Some (connected, dfa2) })"

section \<open>Partition refinement (partit.c)\<close>

text \<open>
  The first loop of \<^verbatim>\<open>update_partitions\<close>, with its \<^verbatim>\<open>break\<close>: does some member have
  different representatives in the two arrays?  The array \<^verbatim>\<open>member[0..group_size-1]\<close> is
  the list of its cells.
\<close>

fun partitions_differ ::
  "state_t list \<Rightarrow> (int \<Rightarrow> state_t) \<Rightarrow> (int \<Rightarrow> state_t)
     \<Rightarrow> (bool \<times> (int \<Rightarrow> state_t) \<times> (int \<Rightarrow> state_t)) option" where
  "partitions_differ [] old_groups new_groups = Some (False, old_groups, new_groups)"
| "partitions_differ (state # rest) old_groups new_groups =
     do { (old_rep, old1) \<leftarrow> find_c state old_groups;
          (new_rep, new1) \<leftarrow> find_c state new_groups;
          if old_rep \<noteq> new_rep then Some (True, old1, new1)
          else partitions_differ rest old1 new1 }"

definition update_partitions ::
  "state_t list \<Rightarrow> (int \<Rightarrow> state_t) \<Rightarrow> (int \<Rightarrow> state_t)
     \<Rightarrow> (bool \<times> (int \<Rightarrow> state_t) \<times> (int \<Rightarrow> state_t)) option" where
  "update_partitions member old_groups new_groups =
     do { (update, old1, new1) \<leftarrow> partitions_differ member old_groups new_groups;
          if update
          then Some (True, fold (\<lambda>state og. og(state := new1 state)) member old1, new1)
          else Some (False, old1, new1) }"

text \<open>The body of the second loop of \<^verbatim>\<open>init_partitions\<close>; the state is
  \<open>(accept_rep, others_rep, groups)\<close>.\<close>

definition init_partitions_step ::
  "(state_t \<Rightarrow> char) \<Rightarrow> state_t \<Rightarrow> state_t \<times> state_t \<times> (int \<Rightarrow> state_t)
     \<Rightarrow> (state_t \<times> state_t \<times> (int \<Rightarrow> state_t)) option" where
  "init_partitions_step attribs i st =
     (case st of (accept_rep, others_rep, groups) \<Rightarrow>
        if attribs i = CHR ''A''
        then (if accept_rep = 0 then Some (i, others_rep, groups)
              else do { g \<leftarrow> Union_c accept_rep i groups; Some (accept_rep, others_rep, g) })
        else (if others_rep = 0 then Some (accept_rep, i, groups)
              else do { g \<leftarrow> Union_c others_rep i groups; Some (accept_rep, others_rep, g) }))"

definition init_partitions ::
  "int \<Rightarrow> (state_t \<Rightarrow> char) \<Rightarrow> (int \<Rightarrow> state_t) \<Rightarrow> (int \<Rightarrow> state_t) option" where
  "init_partitions n_states attribs groups =
     do { (accept_rep, others_rep, g) \<leftarrow>
            for_each (init_partitions_step attribs) [1..n_states]
              (0, 0, fold (\<lambda>i g. g(i := 0)) [1..n_states] groups);
          Some g }"

text \<open>The loop of \<^verbatim>\<open>same_transitions\<close> over the alphabet symbols, with its early
  \<^verbatim>\<open>return FALSE\<close>.  The calls of \<^verbatim>\<open>find\<close> may compress paths of \<open>groups\<close>, which is
  returned with the answer.\<close>

fun same_transitions_loop ::
  "int list \<Rightarrow> state_t \<Rightarrow> state_t \<Rightarrow> (state_t \<Rightarrow> int \<Rightarrow> state_t) \<Rightarrow> (int \<Rightarrow> state_t)
     \<Rightarrow> (bool \<times> (int \<Rightarrow> state_t)) option" where
  "same_transitions_loop [] s1 s2 m groups = Some (True, groups)"
| "same_transitions_loop (i # rest) s1 s2 m groups =
     do { (transition1, g1) \<leftarrow>
            (if m s1 i > 0 then find_c (m s1 i) groups else Some (m s1 i, groups));
          (transition2, g2) \<leftarrow>
            (if m s2 i > 0 then find_c (m s2 i) g1 else Some (m s2 i, g1));
          if transition1 \<noteq> transition2 then Some (False, g2)
          else same_transitions_loop rest s1 s2 m g2 }"

definition same_transitions ::
  "state_t \<Rightarrow> state_t \<Rightarrow> (state_t \<Rightarrow> int \<Rightarrow> state_t) \<Rightarrow> int \<Rightarrow> (int \<Rightarrow> state_t)
     \<Rightarrow> (bool \<times> (int \<Rightarrow> state_t)) option" where
  "same_transitions s1 s2 m n_ab groups = same_transitions_loop [1..n_ab] s1 s2 m groups"

text \<open>
  The working state of \<^verbatim>\<open>partition\<close> inside one group: \<open>old_groups\<close>, the local
  \<open>new_groups\<close> and the local flags \<open>unified\<close>.
\<close>

type_synonym work_t = "(int \<Rightarrow> state_t) \<times> (int \<Rightarrow> state_t) \<times> (state_t \<Rightarrow> bool)"

text \<open>The body of the loop that fills \<^verbatim>\<open>member[]\<close> with the states whose representative
  is \<open>rep\<close>.\<close>

definition collect_member ::
  "state_t \<Rightarrow> state_t \<Rightarrow> state_t list \<times> work_t \<Rightarrow> (state_t list \<times> work_t) option" where
  "collect_member rep i st =
     (case st of (member, old_groups, new_groups, unified) \<Rightarrow>
        do { (r, old1) \<leftarrow> find_c i old_groups;
             Some (if r = rep
                   then (member @ [i], old1, new_groups(i := 0), unified(i := False))
                   else (member, old1, new_groups, unified)) })"

text \<open>The body of the inner loop over \<open>j\<close>, for the fixed member \<open>mi = member[i]\<close>.\<close>

definition unify_pair :: "automaton_t \<Rightarrow> state_t \<Rightarrow> state_t \<Rightarrow> work_t \<Rightarrow> work_t option" where
  "unify_pair dfa mi mj st =
     (case st of (old_groups, new_groups, unified) \<Rightarrow>
        if unified mj then Some st
        else do { (same, old1) \<leftarrow> same_transitions mi mj (mat dfa) (nab dfa) old_groups;
                  if same
                  then do { new1 \<leftarrow> Union_c mi mj new_groups;
                            Some (old1, new1, unified(mj := True)) }
                  else Some (old1, new_groups, unified) })"

text \<open>The outer loop over \<open>i < group_size - 1\<close>: the list is \<open>member[i..group_size-1]\<close>,
  and the inner loop runs over its tail.\<close>

fun unify_members :: "automaton_t \<Rightarrow> state_t list \<Rightarrow> work_t \<Rightarrow> work_t option" where
  "unify_members dfa [] st = Some st"
| "unify_members dfa [m] st = Some st"
| "unify_members dfa (mi # rest) st =
     (case st of (old_groups, new_groups, unified) \<Rightarrow>
        if unified mi then unify_members dfa rest st
        else do { st1 \<leftarrow> for_each (unify_pair dfa mi) rest
                                (old_groups, new_groups, unified(mi := True));
                  unify_members dfa rest st1 })"

text \<open>The body of the loop of \<^verbatim>\<open>partition\<close> over \<open>rep\<close>; the state is \<open>updated\<close> with the
  three arrays.\<close>

definition partition_group ::
  "automaton_t \<Rightarrow> state_t \<Rightarrow> bool \<times> work_t \<Rightarrow> (bool \<times> work_t) option" where
  "partition_group dfa rep st =
     (case st of (updated, old_groups, new_groups, unified) \<Rightarrow>
        if old_groups rep \<ge> 0 then Some st
        else do {
          (member, w1) \<leftarrow> for_each (collect_member rep) [1..nstates dfa]
                              ([], old_groups, new_groups, unified);
          (old2, new2, unified2) \<leftarrow> unify_members dfa member w1;
          (upd, old3, new3) \<leftarrow> update_partitions member old2 new2;
          Some (if upd then True else updated, old3, new3, unified2) })"

text \<open>\<^verbatim>\<open>partition\<close>: the local arrays are not initialised by the source and start from
  unspecified contents.\<close>

definition partition_c ::
  "automaton_t \<Rightarrow> (int \<Rightarrow> state_t) \<Rightarrow> (bool \<times> (int \<Rightarrow> state_t)) option" where
  "partition_c dfa old_groups =
     do { (updated, old1, new1, unified1) \<leftarrow>
            for_each (partition_group dfa) [1..nstates dfa]
              (False, old_groups, undefined, undefined);
          Some (updated, old1) }"

section \<open>Orchestration and compression (main.c)\<close>

text \<open>The loop \<^verbatim>\<open>while (partition(old_dfa, groups) == TRUE) ;\<close> of \<^verbatim>\<open>minimize_dfa\<close>.\<close>

partial_function (option) partition_loop ::
  "automaton_t \<Rightarrow> (int \<Rightarrow> state_t) \<Rightarrow> (int \<Rightarrow> state_t) option" where
  "partition_loop dfa groups =
     Option.bind (partition_c dfa groups)
       (\<lambda>(updated, g). if updated then partition_loop dfa g else Some g)"

declare partition_loop.simps [code]

text \<open>The state of the first loop of \<^verbatim>\<open>compress_dfa\<close>: \<open>groups\<close>, the local arrays
  \<open>rep\<close>, \<open>map\<close>, \<open>pam\<close> and the counter \<open>rep_count\<close>.\<close>

record scan_t =
  sc_groups :: "int \<Rightarrow> state_t"
  sc_rep :: "int \<Rightarrow> state_t"
  sc_map :: "int \<Rightarrow> state_t"
  sc_pam :: "int \<Rightarrow> state_t"
  rep_count :: int

definition compress_scan_step :: "state_t \<Rightarrow> scan_t \<Rightarrow> scan_t option" where
  "compress_scan_step i sc =
     do { (r, g) \<leftarrow> find_c i (sc_groups sc);
          let sc1 = sc\<lparr>sc_groups := g, sc_rep := (sc_rep sc)(i := r)\<rparr>
          in Some (if i = r
                   then sc1\<lparr>sc_map := (sc_map sc1)(i := rep_count sc1 + 1),
                            sc_pam := (sc_pam sc1)(rep_count sc1 + 1 := i),
                            rep_count := rep_count sc1 + 1\<rparr>
                   else sc1) }"

definition compress_scan :: "automaton_t \<Rightarrow> (int \<Rightarrow> state_t) \<Rightarrow> scan_t option" where
  "compress_scan old_dfa groups =
     for_each compress_scan_step [1..nstates old_dfa]
       \<lparr>sc_groups = groups, sc_rep = undefined(0 := 0), sc_map = undefined(0 := 0),
        sc_pam = undefined(0 := 0), rep_count = 0\<rparr>"

text \<open>The body of the second loop of \<^verbatim>\<open>compress_dfa\<close>; the state is the new automaton
  with the counter \<open>a_count\<close>.\<close>

definition compress_fill_step ::
  "automaton_t \<Rightarrow> scan_t \<Rightarrow> state_t \<Rightarrow> automaton_t \<times> int \<Rightarrow> automaton_t \<times> int" where
  "compress_fill_step old_dfa sc i st =
     (case st of (new_dfa, a_count) \<Rightarrow>
        let new1 = fold (\<lambda>j d. d\<lparr>mat := (mat d)(i := (mat d i)
                                   (j := sc_map sc (sc_rep sc (mat old_dfa (sc_pam sc i) j))))\<rparr>)
                        [1..nab old_dfa] new_dfa;
            new2 = new1\<lparr>state_attrib := (state_attrib new1)(i := state_attrib old_dfa (sc_pam sc i))\<rparr>
        in if state_attrib new2 i = CHR ''A''
           then (new2\<lparr>accept := (accept new2)(a_count := i)\<rparr>, a_count + 1)
           else (new2, a_count))"

definition compress_dfa ::
  "automaton_t \<Rightarrow> automaton_t \<Rightarrow> (int \<Rightarrow> state_t) \<Rightarrow> automaton_t option" where
  "compress_dfa old_dfa new_dfa groups =
     do { sc \<leftarrow> compress_scan old_dfa groups;
          let (new1, a_count) = fold (compress_fill_step old_dfa sc) [1..rep_count sc] (new_dfa, 0)
          in Some (new1\<lparr>nstates := rep_count sc,
                        nab := nab old_dfa,
                        init_state := sc_map sc (sc_rep sc (init_state old_dfa))\<rparr>) }"

text \<open>\<^verbatim>\<open>minimize_dfa\<close>.  The partition the refiner ends with is named, since claims speak
  about it.\<close>

definition final_partition :: "automaton_t \<Rightarrow> (int \<Rightarrow> state_t) \<Rightarrow> (int \<Rightarrow> state_t) option" where
  "final_partition old_dfa groups =
     do { g \<leftarrow> init_partitions (nstates old_dfa) (state_attrib old_dfa) groups;
          partition_loop old_dfa g }"

definition minimize_dfa ::
  "conn_t \<Rightarrow> automaton_t \<Rightarrow> automaton_t \<Rightarrow> (int \<Rightarrow> state_t) \<Rightarrow> (conn_t \<times> automaton_t) option" where
  "minimize_dfa connected old_dfa new_dfa groups =
     do { g \<leftarrow> final_partition old_dfa groups;
          new1 \<leftarrow> compress_dfa old_dfa new_dfa g;
          find_dead_states connected new1 }"

section \<open>Specification-level notions\<close>

text \<open>The direct-transition relation of a transition matrix: \<open>s\<close> goes to \<open>t\<close> on some
  symbol \<open>1..n_ab\<close>; the value 0 (and anything below) is "no transition".\<close>

definition direct :: "(state_t \<Rightarrow> int \<Rightarrow> state_t) \<Rightarrow> int \<Rightarrow> int \<Rightarrow> (state_t \<times> state_t) set" where
  "direct m n_states n_ab =
     {(s, t). 1 \<le> s \<and> s \<le> n_states \<and> t > 0 \<and> (\<exists>j\<in>{1..n_ab}. m s j = t)}"

text \<open>The range invariant of section 3.1 on the transition matrix.\<close>

definition valid_mat :: "(state_t \<Rightarrow> int \<Rightarrow> state_t) \<Rightarrow> int \<Rightarrow> int \<Rightarrow> bool" where
  "valid_mat m n_states n_ab \<longleftrightarrow>
     (\<forall>s\<in>{1..n_states}. \<forall>j\<in>{1..n_ab}. 0 \<le> m s j \<and> m s j \<le> n_states)"

text \<open>Paths of a relation whose intermediate nodes all lie in a given set.\<close>

inductive path_via :: "'a set \<Rightarrow> ('a \<times> 'a) set \<Rightarrow> 'a \<Rightarrow> 'a \<Rightarrow> bool" for A R where
  edge: "(x, y) \<in> R \<Longrightarrow> path_via A R x y"
| via: "path_via A R x z \<Longrightarrow> z \<in> A \<Longrightarrow> path_via A R z y \<Longrightarrow> path_via A R x y"

text \<open>Concrete arrays for examples: cell \<open>i\<close> of \<open>arr_of xs\<close> is \<open>xs ! i\<close>, and zero
  beyond the listed cells (\<open>array d xs\<close> is the same with \<open>d\<close> for zero, and \<open>matrix\<close>
  the two-dimensional form); \<open>cells n rep\<close> reads cells \<open>1..n\<close>.\<close>

definition array :: "'a \<Rightarrow> 'a list \<Rightarrow> int \<Rightarrow> 'a" where
  "array d xs i = (if 0 \<le> i \<and> nat i < length xs then xs ! nat i else d)"

definition arr_of :: "int list \<Rightarrow> int \<Rightarrow> int" where
  "arr_of xs i = array 0 xs i"

definition matrix :: "int list list \<Rightarrow> int \<Rightarrow> int \<Rightarrow> int" where
  "matrix rows s j = array 0 (array [] rows s) j"

definition cells :: "int \<Rightarrow> (int \<Rightarrow> 'a) \<Rightarrow> 'a list" where
  "cells n rep = map rep [1..n]"

text \<open>Example inputs.\<close>

definition no_conn :: conn_t where
  "no_conn i j = False"

definition two_loops :: automaton_t where
  "two_loops = \<lparr>nstates = 2, nab = 1, mat = matrix [[], [0, 1], [0, 2]], init_state = 1,
                accept = arr_of [2, 0],
                state_attrib = array (CHR 0x00) [CHR 0x00, CHR 0x00, CHR ''A'']\<rparr>"

section \<open>Notions used in the proofs\<close>

text \<open>The representative of an element in a vector whose trees have depth at most one.\<close>

definition flat_root :: "(int \<Rightarrow> state_t) \<Rightarrow> state_t \<Rightarrow> state_t" where
  "flat_root g x = (if g x > 0 then g x else x)"

text \<open>The cell of \<open>x\<close> in the tree that the source builds for a class listed in scan order: the second member is the root and holds minus the number of its children, every other member points to it, and a class of one member holds 0.\<close>

definition star_cell :: "state_t list \<Rightarrow> state_t \<Rightarrow> state_t" where
  "star_cell C x =
     (case C of [] \<Rightarrow> 0 | [a] \<Rightarrow> 0
      | a # b # rest \<Rightarrow> (if x = b then - 1 - int (length rest) else b))"

text \<open>The members of \<open>ms\<close> that a classification \<open>key\<close> puts with \<open>x\<close>, in the order of \<open>ms\<close>.\<close>

definition klass :: "(state_t \<Rightarrow> 'k) \<Rightarrow> state_t list \<Rightarrow> state_t \<Rightarrow> state_t list" where
  "klass key ms x = filter (\<lambda>y. key y = key x) ms"

text \<open>The cell that a classification of the list \<open>ms\<close> gives to \<open>x\<close>.\<close>

definition canon_cell :: "(state_t \<Rightarrow> 'k) \<Rightarrow> state_t list \<Rightarrow> state_t \<Rightarrow> state_t" where
  "canon_cell key ms x = star_cell (klass key ms x) x"

text \<open>A vector is canonical on \<open>ms\<close> when each cell is the one its own classes give it.\<close>

definition canonical_on :: "state_t list \<Rightarrow> (int \<Rightarrow> state_t) \<Rightarrow> bool" where
  "canonical_on ms g \<longleftrightarrow> (\<forall>x\<in>set ms. g x = canon_cell (flat_root g) ms x)"

text \<open>The class of a transition target: the sink 0 is its own class.\<close>

definition cls :: "(int \<Rightarrow> state_t) \<Rightarrow> state_t \<Rightarrow> state_t" where
  "cls g t = (if t > 0 then flat_root g t else t)"

text \<open>The classes of the transitions of a state, symbol by symbol.\<close>

definition signature ::
  "(state_t \<Rightarrow> int \<Rightarrow> state_t) \<Rightarrow> int \<Rightarrow> (int \<Rightarrow> state_t) \<Rightarrow> state_t \<Rightarrow> state_t list" where
  "signature m k g x = map (\<lambda>j. cls g (m x j)) [1..k]"

text \<open>Every parent in range is a root.\<close>

definition flat_on :: "int \<Rightarrow> (int \<Rightarrow> state_t) \<Rightarrow> bool" where
  "flat_on n g \<longleftrightarrow> (\<forall>x\<in>{1..n}. g x > 0 \<longrightarrow> g (g x) \<le> 0)"

text \<open>The number of equivalence classes of a partition vector over \<open>1..n\<close>: the number of its roots.\<close>

definition class_count :: "int \<Rightarrow> (int \<Rightarrow> state_t) \<Rightarrow> nat" where
  "class_count n g = card {r. 1 \<le> r \<and> r \<le> n \<and> g r \<le> 0}"

text \<open>Two states in one class of \<open>g'\<close> are in one class of \<open>g\<close>.\<close>

definition refines :: "int \<Rightarrow> (int \<Rightarrow> state_t) \<Rightarrow> (int \<Rightarrow> state_t) \<Rightarrow> bool" where
  "refines n g g' \<longleftrightarrow>
     (\<forall>x\<in>{1..n}. \<forall>y\<in>{1..n}. flat_root g' x = flat_root g' y \<longrightarrow> flat_root g x = flat_root g y)"

text \<open>Two states of one class go to the same classes on every symbol.\<close>

definition stable :: "automaton_t \<Rightarrow> (int \<Rightarrow> state_t) \<Rightarrow> bool" where
  "stable dfa g \<longleftrightarrow>
     (\<forall>x\<in>{1..nstates dfa}. \<forall>y\<in>{1..nstates dfa}.
        flat_root g x = flat_root g y \<longrightarrow>
        signature (mat dfa) (nab dfa) g x = signature (mat dfa) (nab dfa) g y)"

text \<open>The same inside the class of representative \<open>rep\<close>.\<close>

definition group_stable :: "automaton_t \<Rightarrow> (int \<Rightarrow> state_t) \<Rightarrow> state_t \<Rightarrow> bool" where
  "group_stable dfa g rep \<longleftrightarrow>
     (\<forall>x\<in>{1..nstates dfa}. \<forall>y\<in>{1..nstates dfa}.
        flat_root g x = rep \<longrightarrow> flat_root g y = rep \<longrightarrow>
        signature (mat dfa) (nab dfa) g x = signature (mat dfa) (nab dfa) g y)"

text \<open>The first cell of a list of state ids, 0 for the empty list.\<close>

definition first_of :: "state_t list \<Rightarrow> state_t" where
  "first_of xs = (case xs of [] \<Rightarrow> 0 | a # _ \<Rightarrow> a)"

text \<open>The invariants of section 3.1 on an input automaton.\<close>

definition valid_dfa :: "automaton_t \<Rightarrow> bool" where
  "valid_dfa dfa \<longleftrightarrow>
     1 \<le> nstates dfa \<and> nstates dfa \<le> MAX_STATES \<and> 1 \<le> nab dfa \<and> nab dfa \<le> AB_SIZE
     \<and> valid_mat (mat dfa) (nstates dfa) (nab dfa) \<and> init_state dfa = 1"


text \<open>The loop of \<^verbatim>\<open>minimize_dfa\<close> cut off after \<open>k\<close> calls of \<^verbatim>\<open>partition\<close>: \<open>None\<close> when
  the loop needs more calls than that.\<close>

fun partition_calls :: "nat \<Rightarrow> automaton_t \<Rightarrow> (int \<Rightarrow> state_t) \<Rightarrow> (int \<Rightarrow> state_t) option" where
  "partition_calls 0 dfa groups = None"
| "partition_calls (Suc k) dfa groups =
     Option.bind (partition_c dfa groups)
       (\<lambda>(updated, g). if updated then partition_calls k dfa g else Some g)"

text \<open>The contents of the static \<^verbatim>\<open>groups\<close> and \<^verbatim>\<open>out_dfa\<close> when the program starts.\<close>

definition zero_groups :: "int \<Rightarrow> state_t" where
  "zero_groups i = 0"

definition empty_dfa :: automaton_t where
  "empty_dfa = \<lparr>nstates = 0, nab = 0, mat = matrix [], init_state = 0, accept = arr_of [],
                state_attrib = array (CHR 0x00) []\<rparr>"

text \<open>Scenario S1 of the specification: three states on one symbol, \<open>0\<rightarrow>1\<rightarrow>2\<rightarrow>2\<close>, states 1
  and 2 accepting (ids here are the internal ones, 1 to 3).\<close>

definition collapse_dfa :: automaton_t where
  "collapse_dfa = \<lparr>nstates = 3, nab = 1, mat = matrix [[], [0, 2], [0, 3], [0, 3]],
                   init_state = 1, accept = arr_of [2, 3, 0],
                   state_attrib = array (CHR 0x00) [CHR 0x00, CHR 0x00, CHR ''A'', CHR ''A'']\<rparr>"

text \<open>Three states on one symbol, all going to state 2, the only accepting one: states 1
  and 3 are equivalent.\<close>

definition twins_dfa :: automaton_t where
  "twins_dfa = \<lparr>nstates = 3, nab = 1, mat = matrix [[], [0, 2], [0, 2], [0, 2]],
                init_state = 1, accept = arr_of [2, 0],
                state_attrib = array (CHR 0x00) [CHR 0x00, CHR 0x00, CHR ''A'', CHR 0x00]\<rparr>"

text \<open>What the first loop of \<^verbatim>\<open>compress_dfa\<close> has built after scanning the states \<open>P\<close> of a
  flat vector \<open>g\<close>: \<open>rep\<close> holds the representatives, and the representatives met so far,
  in scan order, are numbered from 1 by \<open>map\<close>, with \<open>pam\<close> the inverse.\<close>

definition scan_inv :: "(int \<Rightarrow> state_t) \<Rightarrow> state_t list \<Rightarrow> scan_t \<Rightarrow> bool" where
  "scan_inv g P sc \<longleftrightarrow>
     sc_groups sc = g
     \<and> rep_count sc = int (length (filter (\<lambda>x. flat_root g x = x) P))
     \<and> (\<forall>x\<in>set P. sc_rep sc x = flat_root g x)
     \<and> sc_rep sc 0 = 0 \<and> sc_map sc 0 = 0 \<and> sc_pam sc 0 = 0
     \<and> (\<forall>k < length (filter (\<lambda>x. flat_root g x = x) P).
           sc_pam sc (int k + 1) = filter (\<lambda>x. flat_root g x = x) P ! k
           \<and> sc_map sc (filter (\<lambda>x. flat_root g x = x) P ! k) = int k + 1)"

text \<open>Running an automaton.  The program has no function that runs an automaton on a
  word; acceptance is the one of its README and of section 3.1 of the specification: a
  word is a list of symbol indices \<open>1..nab\<close>, the run starts in \<open>init_state\<close> and follows
  the transition matrix, the sink 0 ("no transition") is never left, and the word is
  accepted when the run ends in a state with attribute \<open>'A'\<close>.\<close>

definition dfa_step :: "(state_t \<Rightarrow> int \<Rightarrow> state_t) \<Rightarrow> state_t \<Rightarrow> int \<Rightarrow> state_t" where
  "dfa_step m s j = (if 1 \<le> s then m s j else 0)"

definition run :: "automaton_t \<Rightarrow> int list \<Rightarrow> state_t" where
  "run dfa w = foldl (dfa_step (mat dfa)) (init_state dfa) w"

definition accepts :: "automaton_t \<Rightarrow> int list \<Rightarrow> bool" where
  "accepts dfa w \<longleftrightarrow> 1 \<le> run dfa w \<and> state_attrib dfa (run dfa w) = CHR ''A''"

text \<open>What is proved about the automaton \<open>out\<close> that \<^verbatim>\<open>compress_dfa\<close> builds, over the
  prior contents \<open>new\<close>, from the partition \<open>gf\<close> the refiner ends with: \<open>sc\<close> holds the tables
  of the scan, and \<open>map[rep[.]]\<close> sends an old state to the state of its class.\<close>

definition quotient_built ::
  "automaton_t \<Rightarrow> (int \<Rightarrow> state_t) \<Rightarrow> automaton_t \<Rightarrow> (int \<Rightarrow> state_t) \<Rightarrow> scan_t \<Rightarrow> automaton_t \<Rightarrow> bool" where
  "quotient_built dfa groups0 new gf sc out \<longleftrightarrow>
           final_partition dfa groups0 = Some gf
         \<and> canonical_on [1..nstates dfa] gf
         \<and> compress_scan dfa gf = Some sc
         \<and> scan_inv gf [1..nstates dfa] sc
         \<and> compress_dfa dfa new gf = Some out
         \<and> nstates out = rep_count sc \<and> nab out = nab dfa
         \<and> 1 \<le> nstates out \<and> nstates out \<le> nstates dfa
         \<and> sc_map sc (sc_rep sc 0) = 0
         \<and> (\<forall>x\<in>{1..nstates dfa}. 1 \<le> sc_map sc (sc_rep sc x) \<and> sc_map sc (sc_rep sc x) \<le> nstates out)
         \<and> (\<forall>s\<in>{1..nstates dfa}. \<forall>j\<in>{1..nab dfa}.
               mat out (sc_map sc (sc_rep sc s)) j = sc_map sc (sc_rep sc (mat dfa s j)))
         \<and> (\<forall>s\<in>{1..nstates dfa}.
               state_attrib out (sc_map sc (sc_rep sc s)) = CHR ''A'' \<longleftrightarrow> state_attrib dfa s = CHR ''A'')
         \<and> init_state out = sc_map sc (sc_rep sc (init_state dfa))
         \<and> valid_mat (mat out) (nstates out) (nab out)
         \<and> int (length (filter (\<lambda>i. state_attrib out i = CHR ''A'') [1..nstates out])) \<le> nstates out
         \<and> (\<forall>k. int (length (filter (\<lambda>i. state_attrib out i = CHR ''A'') [1..nstates out])) \<le> k
                \<longrightarrow> accept out k = accept new k)
         \<and> (\<forall>k. 0 \<le> k \<and> k < int (length (filter (\<lambda>i. state_attrib out i = CHR ''A'') [1..nstates out]))
                \<longrightarrow> 1 \<le> accept out k \<and> accept out k \<le> nstates out
                    \<and> state_attrib out (accept out k) = CHR ''A'')"

text \<open>Three states on one symbol, \<open>0\<rightarrow>1\<rightarrow>2\<close> and no transition from 2, states 1 and 2
  accepting: no two states are equivalent.\<close>

definition countdown_dfa :: automaton_t where
  "countdown_dfa = \<lparr>nstates = 3, nab = 1, mat = matrix [[], [0, 2], [0, 3], [0, 0]],
                    init_state = 1, accept = arr_of [2, 3, 0],
                    state_attrib = array (CHR 0x00) [CHR 0x00, CHR 0x00, CHR ''A'', CHR ''A'']\<rparr>"

text \<open>Scenario S2 of the specification: state 2 (internal id 3) cannot reach the accepting
  state.\<close>

definition dead_end_dfa :: automaton_t where
  "dead_end_dfa = \<lparr>nstates = 3, nab = 2, mat = matrix [[], [0, 2, 3], [0, 2, 2], [0, 3, 3]],
                   init_state = 1, accept = arr_of [2, 0],
                   state_attrib = array (CHR 0x00) [CHR 0x00, CHR 0x00, CHR ''A'', CHR 0x00]\<rparr>"

subsection \<open>Parent chains\<close>

lemma chain_root_is_root: "chain_root rep e r \<Longrightarrow> rep r \<le> 0"
  by (induction rule: chain_root.induct) auto

lemma chain_root_unique: "chain_root rep e r \<Longrightarrow> chain_root rep e s \<Longrightarrow> r = s"
proof (induction arbitrary: s rule: chain_root.induct)
  case (at_root e)
  then show ?case by (auto elim: chain_root.cases)
next
  case (up e r)
  from up.prems up.hyps(1) have "chain_root rep (rep e) s"
    by (auto elim: chain_root.cases)
  then show ?case by (rule up.IH)
qed

lemma chain_root_pos: "chain_root rep e r \<Longrightarrow> r = e \<or> r > 0"
  by (induction rule: chain_root.induct) auto

lemma chain_root_of_root: "rep r \<le> 0 \<Longrightarrow> chain_root rep r s \<Longrightarrow> s = r"
  by (auto elim: chain_root.cases)

lemma find_root_chain: "chain_root rep e r \<Longrightarrow> find_root rep e = Some r"
proof (induction rule: chain_root.induct)
  case (at_root e)
  then show ?case by (subst find_root.simps) simp
next
  case (up e r)
  then show ?case by (subst find_root.simps) simp
qed

lemma redirected_refl: "redirected rep r rep"
  by (simp add: redirected_def)

lemma redirected_upd:
  "redirected rep r rep2 \<Longrightarrow> chain_root rep e r \<Longrightarrow> rep e > 0 \<Longrightarrow> redirected rep r (rep2(e := r))"
  using chain_root_pos[of rep e r] chain_root_is_root[of rep e r]
  by (auto simp: redirected_def)

lemma redirected_root_cell: "redirected rep r rep' \<Longrightarrow> rep x \<le> 0 \<Longrightarrow> rep' x = rep x"
  by (auto simp: redirected_def)

lemma redirected_chain_fwd:
  assumes R: "redirected rep r rep'"
  shows "chain_root rep x s \<Longrightarrow> chain_root rep' x s"
proof (induction rule: chain_root.induct)
  case (at_root e)
  then have "rep' e \<le> 0" using redirected_root_cell[OF R, of e] by simp
  then show ?case by (rule chain_root.at_root)
next
  case (up e s)
  from R have "rep' e = rep e \<or> (rep e > 0 \<and> rep' e = r \<and> r > 0 \<and> chain_root rep e r)"
    by (simp add: redirected_def)
  then show ?case
  proof
    assume "rep' e = rep e"
    with up show ?thesis by (auto intro: chain_root.up)
  next
    assume A: "rep e > 0 \<and> rep' e = r \<and> r > 0 \<and> chain_root rep e r"
    have "chain_root rep e s" using up.hyps by (rule chain_root.up)
    with A have "s = r" by (auto dest: chain_root_unique)
    from A have "rep r \<le> 0" by (auto dest: chain_root_is_root)
    with R have "rep' r \<le> 0" by (simp add: redirected_root_cell)
    then have "chain_root rep' r r" by (rule chain_root.at_root)
    with A \<open>s = r\<close> show ?thesis by (auto intro: chain_root.up)
  qed
qed

lemma redirected_chain_bwd:
  assumes R: "redirected rep r rep'"
  shows "chain_root rep' x s \<Longrightarrow> chain_root rep x s"
proof (induction rule: chain_root.induct)
  case (at_root e)
  from R have "rep' e = rep e \<or> (rep e > 0 \<and> rep' e = r \<and> r > 0 \<and> chain_root rep e r)"
    by (simp add: redirected_def)
  with at_root have "rep e \<le> 0" by auto
  then show ?case by (rule chain_root.at_root)
next
  case (up e s)
  from R have "rep' e = rep e \<or> (rep e > 0 \<and> rep' e = r \<and> r > 0 \<and> chain_root rep e r)"
    by (simp add: redirected_def)
  then show ?case
  proof
    assume "rep' e = rep e"
    with up show ?thesis by (auto intro: chain_root.up)
  next
    assume A: "rep e > 0 \<and> rep' e = r \<and> r > 0 \<and> chain_root rep e r"
    then have "rep r \<le> 0" by (auto dest: chain_root_is_root)
    with up.IH A have "s = r" by (auto dest: chain_root_of_root)
    with A show ?thesis by simp
  qed
qed

lemma redirected_chain_iff:
  "redirected rep r rep' \<Longrightarrow> chain_root rep' x s \<longleftrightarrow> chain_root rep x s"
  using redirected_chain_fwd redirected_chain_bwd by blast

lemma compress_path_redirected:
  "chain_root rep e r \<Longrightarrow> redirected rep r rep2 \<Longrightarrow>
     \<exists>rep'. compress_path r rep2 e = Some rep' \<and> redirected rep r rep'"
proof (induction arbitrary: rep2 rule: chain_root.induct)
  case (at_root e)
  then have "rep2 e \<le> 0" by (simp add: redirected_root_cell)
  then show ?case using at_root.prems by (subst compress_path.simps) simp
next
  case (up e r)
  have er: "chain_root rep e r" using up.hyps by (rule chain_root.up)
  have R2: "redirected rep r (rep2(e := r))"
    using up.prems er up.hyps(1) by (rule redirected_upd)
  from up.prems have "rep2 e = rep e \<or> (rep e > 0 \<and> rep2 e = r \<and> r > 0 \<and> chain_root rep e r)"
    by (simp add: redirected_def)
  then show ?case
  proof
    assume E: "rep2 e = rep e"
    from up.IH[OF R2] obtain rep' where
      "compress_path r (rep2(e := r)) (rep e) = Some rep'" "redirected rep r rep'" by blast
    with E up.hyps(1) show ?thesis by (subst compress_path.simps) simp
  next
    assume A: "rep e > 0 \<and> rep2 e = r \<and> r > 0 \<and> chain_root rep e r"
    have "rep r \<le> 0" using er by (rule chain_root_is_root)
    with R2 have "(rep2(e := r)) r = rep r" by (rule redirected_root_cell)
    with \<open>rep r \<le> 0\<close> have "\<not> (rep2(e := r)) r > 0" by linarith
    then have "compress_path r (rep2(e := r)) r = Some (rep2(e := r))"
      by (subst compress_path.simps) (simp only: if_False)
    with A R2 show ?thesis by (subst compress_path.simps) simp
  qed
qed

lemma find_c_chain:
  assumes "chain_root rep e r"
  shows "\<exists>rep'. find_c e rep = Some (r, rep') \<and> redirected rep r rep'"
proof -
  from compress_path_redirected[OF assms redirected_refl] obtain rep' where
    "compress_path r rep e = Some rep'" "redirected rep r rep'" by blast
  then show ?thesis using find_root_chain[OF assms] by (simp add: find_c_def)
qed

lemma well_formed_redirected:
  "well_formed n rep \<Longrightarrow> redirected rep r rep' \<Longrightarrow> well_formed n rep'"
  unfolding well_formed_def using redirected_chain_fwd by blast

section \<open>Claims about Union-Find\<close>

text \<open>
  C9.  For a well-formed partition vector and an element in range, \<^verbatim>\<open>find\<close> terminates
  and returns the root of the element's parent chain; after its path compression every
  element has exactly the roots it had before, every root cell (zero or negative) holds
  the value it held before, and the vector is still well formed.
\<close>

theorem find_returns_root_and_preserves_partition:
  assumes "well_formed n rep" and "1 \<le> e" and "e \<le> n"
  shows "\<exists>r rep'. find_c e rep = Some (r, rep') \<and> chain_root rep e r
           \<and> (\<forall>x s. chain_root rep' x s \<longleftrightarrow> chain_root rep x s)
           \<and> (\<forall>x. rep x \<le> 0 \<longrightarrow> rep' x = rep x)
           \<and> well_formed n rep'"
proof -
  from assms obtain r where r: "chain_root rep e r" unfolding well_formed_def by blast
  from find_c_chain[OF r] obtain rep' where
    f: "find_c e rep = Some (r, rep')" and R: "redirected rep r rep'" by blast
  have "\<forall>x s. chain_root rep' x s \<longleftrightarrow> chain_root rep x s"
    using redirected_chain_iff[OF R] by blast
  moreover have "\<forall>x. rep x \<le> 0 \<longrightarrow> rep' x = rep x"
    using redirected_root_cell[OF R] by blast
  moreover have "well_formed n rep'"
    using assms(1) R by (rule well_formed_redirected)
  ultimately show ?thesis using f r by blast
qed

theorem find_returns_root_and_preserves_partition_witness:
  "well_formed 3 (arr_of [0, 2, 3, - 2]) \<and> (1::int) \<le> 1 \<and> (1::int) \<le> 3
   \<and> (\<exists>r rep'. find_c 1 (arr_of [0, 2, 3, - 2]) = Some (r, rep')
          \<and> chain_root (arr_of [0, 2, 3, - 2]) 1 r
          \<and> (\<forall>x s. chain_root rep' x s \<longleftrightarrow> chain_root (arr_of [0, 2, 3, - 2]) x s)
          \<and> (\<forall>x. arr_of [0, 2, 3, - 2] x \<le> 0 \<longrightarrow> rep' x = arr_of [0, 2, 3, - 2] x)
          \<and> well_formed 3 rep')"
proof -
  let ?A = "arr_of [0, 2, 3, - 2]"
  have c3: "chain_root ?A 3 3" by (rule chain_root.at_root) (simp add: arr_of_def array_def)
  have c2: "chain_root ?A 2 3" by (rule chain_root.up) (simp_all add: arr_of_def array_def c3)
  have c1: "chain_root ?A 1 3" by (rule chain_root.up) (simp_all add: arr_of_def array_def c2)
  have wf: "well_formed 3 ?A"
    unfolding well_formed_def
  proof (intro allI impI)
    fix e :: int assume "1 \<le> e \<and> e \<le> 3"
    then have "e = 1 \<or> e = 2 \<or> e = 3" by arith
    with c1 c2 c3 have "chain_root ?A e 3" by auto
    then show "\<exists>r. 1 \<le> r \<and> r \<le> 3 \<and> chain_root ?A e r" by (intro exI[of _ 3]) simp
  qed
  have h1: "(1::int) \<le> 1" and h2: "(1::int) \<le> 3" by simp_all
  show ?thesis
    using wf h1 h2 find_returns_root_and_preserves_partition[OF wf h1 h2] by blast
qed

lemma Union_c_roots:
  assumes a: "chain_root rep a i" and b: "chain_root rep b j"
  shows "\<exists>rep2. rep2 i = rep i \<and> rep2 j = rep j
           \<and> (\<forall>x s. chain_root rep2 x s \<longleftrightarrow> chain_root rep x s)
           \<and> (\<forall>x. rep2 x = rep x \<or> (rep x > 0 \<and> (rep2 x = i \<and> chain_root rep x i
                                                    \<or> rep2 x = j \<and> chain_root rep x j)))
           \<and> Union_c a b rep =
               Some (if i \<noteq> j
                     then (if rep2 j > rep2 i
                           then (rep2(i := rep2 i + (rep2 j - 1)))(j := i)
                           else (rep2(j := rep2 j + (rep2 i - 1)))(i := j))
                     else rep2)"
proof -
  from find_c_chain[OF a] obtain rep1 where
    f1: "find_c a rep = Some (i, rep1)" and R1: "redirected rep i rep1" by blast
  have b1: "chain_root rep1 b j" using R1 b by (rule redirected_chain_fwd)
  from find_c_chain[OF b1] obtain rep2 where
    f2: "find_c b rep1 = Some (j, rep2)" and R2: "redirected rep1 j rep2" by blast
  have ri: "rep i \<le> 0" using a by (rule chain_root_is_root)
  have rj: "rep j \<le> 0" using b by (rule chain_root_is_root)
  have i1: "rep1 i = rep i" using R1 ri by (rule redirected_root_cell)
  have j1: "rep1 j = rep j" using R1 rj by (rule redirected_root_cell)
  have i2: "rep2 i = rep i" using redirected_root_cell[OF R2, of i] i1 ri by simp
  have j2: "rep2 j = rep j" using redirected_root_cell[OF R2, of j] j1 rj by simp
  have iff: "\<forall>x s. chain_root rep2 x s \<longleftrightarrow> chain_root rep x s"
    using redirected_chain_iff[OF R1] redirected_chain_iff[OF R2] by blast
  have cellw: "\<forall>x. rep2 x = rep x \<or> (rep x > 0 \<and> (rep2 x = i \<and> chain_root rep x i
                                                    \<or> rep2 x = j \<and> chain_root rep x j))"
  proof
    fix x
    from R1 have A: "rep1 x = rep x \<or> (rep x > 0 \<and> rep1 x = i \<and> i > 0 \<and> chain_root rep x i)"
      by (simp add: redirected_def)
    from R2 have B: "rep2 x = rep1 x \<or> (rep1 x > 0 \<and> rep2 x = j \<and> j > 0 \<and> chain_root rep1 x j)"
      by (simp add: redirected_def)
    have C: "chain_root rep1 x j \<Longrightarrow> chain_root rep x j"
      using redirected_chain_bwd[OF R1] by blast
    from A B C show "rep2 x = rep x \<or> (rep x > 0 \<and> (rep2 x = i \<and> chain_root rep x i
                                                    \<or> rep2 x = j \<and> chain_root rep x j))"
      by (metis chain_root.up chain_root_is_root chain_root_of_root)
  qed
  have U: "Union_c a b rep =
               Some (if i \<noteq> j
                     then (if rep2 j > rep2 i
                           then (rep2(i := rep2 i + (rep2 j - 1)))(j := i)
                           else (rep2(j := rep2 j + (rep2 i - 1)))(i := j))
                     else rep2)"
    using f1 f2 by (simp add: Union_c_def)
  from i2 j2 iff cellw U show ?thesis by blast
qed

subsection \<open>Weighted union\<close>

text \<open>
  C4 (amended).  For elements \<open>a\<close>, \<open>b\<close> whose chains end at distinct roots \<open>i\<close>, \<open>j\<close>,
  \<open>Union(a, b, rep)\<close> attaches the root with the strictly smaller stored tree under the
  root of the larger one and adds the absorbed weight plus one to the survivor; when the
  two stored weights are equal it attaches the first argument's root under the second
  argument's root.
\<close>

theorem Union_weighted_first_under_second_on_ties:
  assumes "chain_root rep a i" and "chain_root rep b j" and "i \<noteq> j"
  shows "\<exists>rep'. Union_c a b rep = Some rep'
           \<and> (if rep j > rep i
               then rep' j = i \<and> rep' i = rep i + (rep j - 1)
               else rep' i = j \<and> rep' j = rep j + (rep i - 1))"
proof -
  from Union_c_roots[OF assms(1,2)] obtain rep2 where
    "rep2 i = rep i" "rep2 j = rep j"
    "Union_c a b rep =
               Some (if i \<noteq> j
                     then (if rep2 j > rep2 i
                           then (rep2(i := rep2 i + (rep2 j - 1)))(j := i)
                           else (rep2(j := rep2 j + (rep2 i - 1)))(i := j))
                     else rep2)" by blast
  with assms(3) show ?thesis by auto
qed

theorem Union_weighted_first_under_second_on_ties_witness:
  "chain_root (arr_of [0, 0, 0]) 1 1 \<and> chain_root (arr_of [0, 0, 0]) 2 2 \<and> (1::int) \<noteq> 2
   \<and> (\<exists>rep'. Union_c 1 2 (arr_of [0, 0, 0]) = Some rep'
         \<and> (if arr_of [0, 0, 0] 2 > arr_of [0, 0, 0] 1
             then rep' 2 = 1 \<and> rep' 1 = arr_of [0, 0, 0] 1 + (arr_of [0, 0, 0] 2 - 1)
             else rep' 1 = 2 \<and> rep' 2 = arr_of [0, 0, 0] 2 + (arr_of [0, 0, 0] 1 - 1)))"
proof -
  have c1: "chain_root (arr_of [0, 0, 0]) 1 1"
    by (rule chain_root.at_root) (simp add: arr_of_def array_def)
  have c2: "chain_root (arr_of [0, 0, 0]) 2 2"
    by (rule chain_root.at_root) (simp add: arr_of_def array_def)
  have ne: "(1::int) \<noteq> 2" by simp
  show ?thesis
    using c1 c2 ne Union_weighted_first_under_second_on_ties[OF c1 c2 ne] by blast
qed

theorem Union_tie_counterexample:
  "map_option (cells 2) (Union_c 1 2 (arr_of [0, 0, 0])) = Some [2, - 1]"
  by code_simp

subsection \<open>Connectivity matrix\<close>

lemma set_upto_int: "set [1..n] = {1..n::int}"
  by simp

lemma clear_row:
  "fold (\<lambda>dest c. set_conn c src dest False) ds c =
     (\<lambda>x y. if x = src \<and> y \<in> set ds then False else c x y)"
  by (induction ds arbitrary: c) (auto simp: set_conn_def fun_eq_iff)

lemma fill_row:
  "fold (\<lambda>i c. let dest = m src i in if dest > 0 then set_conn c src dest True else c) js c =
     (\<lambda>x y. c x y \<or> (x = src \<and> y > 0 \<and> (\<exists>j\<in>set js. m src j = y)))"
  by (induction js arbitrary: c) (auto simp: set_conn_def fun_eq_iff Let_def)

lemma init_rows_gen:
  assumes body: "\<And>s c. f s c = (\<lambda>x y. if x = s
                                 then (x = y \<or> (y > 0 \<and> (\<exists>j\<in>J. m x j = y)) \<or> (y \<notin> D \<and> c x y))
                                 else c x y)"
  shows "fold f ss c =
     (\<lambda>x y. if x \<in> set ss
             then (x = y \<or> (y > 0 \<and> (\<exists>j\<in>J. m x j = y)) \<or> (y \<notin> D \<and> c x y))
             else c x y)"
proof (induction ss arbitrary: c)
  case Nil
  then show ?case by simp
next
  case (Cons s ss)
  show ?case
    unfolding fold_simps o_apply Cons.IH
    by (auto simp: body fun_eq_iff)
qed

lemma init_connections_eq:
  "init_connections m n k c =
     (\<lambda>x y. if x \<in> {1..n}
             then (x = y \<or> (y > 0 \<and> (\<exists>j\<in>{1..k}. m x j = y)) \<or> (y \<notin> {1..n} \<and> c x y))
             else c x y)"
proof -
  have "init_connections m n k c =
     (\<lambda>x y. if x \<in> set [1..n]
             then (x = y \<or> (y > 0 \<and> (\<exists>j\<in>set [1..k]. m x j = y)) \<or> (y \<notin> set [1..n] \<and> c x y))
             else c x y)"
    unfolding init_connections_def
    apply (rule init_rows_gen)
    apply (simp only: Let_def clear_row fill_row[unfolded Let_def])
    apply (auto simp: set_conn_def fun_eq_iff)
    done
  then show ?thesis by simp
qed

lemma init_connections_cells:
  "1 \<le> x \<Longrightarrow> x \<le> n \<Longrightarrow> 1 \<le> y \<Longrightarrow> y \<le> n \<Longrightarrow>
     init_connections m n k c x y \<longleftrightarrow> x = y \<or> (x, y) \<in> direct m n k"
  unfolding init_connections_eq by (auto simp: direct_def)

lemma pivot_row:
  "fold (\<lambda>k c. if c p k then set_conn c j k True else c) ks c =
     (\<lambda>x y. c x y \<or> (x = j \<and> y \<in> set ks \<and> c p y))"
proof (induction ks arbitrary: c)
  case Nil
  then show ?case by simp
next
  case (Cons k ks)
  show ?case
    unfolding fold_simps o_apply Cons.IH
    by (auto simp: fun_eq_iff set_conn_def)
qed

lemma pivot_rows_gen:
  assumes body: "\<And>j c. f j c = (\<lambda>x y. c x y \<or> (x = j \<and> c x p \<and> y \<in> K \<and> c p y))"
  shows "fold f js c = (\<lambda>x y. c x y \<or> (x \<in> set js \<and> c x p \<and> y \<in> K \<and> c p y))"
proof (induction js arbitrary: c)
  case Nil
  then show ?case by simp
next
  case (Cons j js)
  show ?case
    unfolding fold_simps o_apply Cons.IH
    by (auto simp: body fun_eq_iff)
qed

lemma pivot_rows:
  "fold (\<lambda>j c. if c j p then fold (\<lambda>k c. if c p k then set_conn c j k True else c) ks c else c) js c =
     (\<lambda>x y. c x y \<or> (x \<in> set js \<and> c x p \<and> y \<in> set ks \<and> c p y))"
  by (rule pivot_rows_gen) (auto simp: pivot_row fun_eq_iff)

text \<open>One pass of the outer loop of \<open>t_closure\<close>, for the pivot \<open>p\<close>.\<close>

lemma path_via_empty: "path_via {} R x y \<Longrightarrow> (x, y) \<in> R"
  by (induction rule: path_via.induct) auto

lemma path_via_insert:
  "path_via (insert p P) R x y \<Longrightarrow> path_via P R x y \<or> (path_via P R x p \<and> path_via P R p y)"
proof (induction rule: path_via.induct)
  case (edge x y)
  then show ?case by (auto intro: path_via.edge)
next
  case (via x z y)
  show ?case
  proof (cases "z = p")
    case True
    with via.IH show ?thesis by auto
  next
    case False
    with via.hyps have "z \<in> P" by simp
    with via.IH show ?thesis by (meson path_via.via)
  qed
qed

lemma path_via_trancl_fwd: "path_via A R x y \<Longrightarrow> (x, y) \<in> R\<^sup>+"
  by (induction rule: path_via.induct) auto

lemma trancl_path_via:
  assumes "R \<subseteq> A \<times> A"
  shows "(x, y) \<in> R\<^sup>+ \<Longrightarrow> path_via A R x y"
proof (induction rule: trancl_induct)
  case (base y)
  then show ?case by (rule path_via.edge)
next
  case (step y z)
  from step.hyps(2) assms have "y \<in> A" by auto
  with step show ?case by (meson path_via.edge path_via.via)
qed

lemma closure_sound:
  assumes body: "\<And>p c. f p c = (\<lambda>x y. c x y \<or> (x \<in> S \<and> c x p \<and> y \<in> S \<and> c p y))"
  shows "\<forall>x\<in>S. \<forall>y\<in>S. c x y \<longrightarrow> (x, y) \<in> R\<^sup>+ \<Longrightarrow> set ps \<subseteq> S \<Longrightarrow> x \<in> S \<Longrightarrow> y \<in> S \<Longrightarrow>
           fold f ps c x y \<Longrightarrow> (x, y) \<in> R\<^sup>+"
proof (induction ps arbitrary: c)
  case Nil
  then show ?case by simp
next
  case (Cons p ps)
  from Cons.prems(2) have p: "p \<in> S" by simp
  have "\<forall>x\<in>S. \<forall>y\<in>S. f p c x y \<longrightarrow> (x, y) \<in> R\<^sup>+"
    using Cons.prems(1) p by (auto simp: body intro: trancl_trans)
  from Cons.IH[OF this] Cons.prems show ?case by simp
qed

lemma closure_complete:
  assumes body: "\<And>p c. f p c = (\<lambda>x y. c x y \<or> (x \<in> S \<and> c x p \<and> y \<in> S \<and> c p y))"
    and R: "R \<subseteq> S \<times> S"
  shows "\<forall>x y. path_via P R x y \<longrightarrow> c x y \<Longrightarrow> set ps \<subseteq> S \<Longrightarrow>
           path_via (P \<union> set ps) R x y \<Longrightarrow> fold f ps c x y"
proof (induction ps arbitrary: c P)
  case Nil
  then show ?case by simp
next
  case (Cons p ps)
  have ends: "\<And>A x y. path_via A R x y \<Longrightarrow> x \<in> S \<and> y \<in> S"
  proof -
    fix A x y show "path_via A R x y \<Longrightarrow> x \<in> S \<and> y \<in> S"
      by (induction rule: path_via.induct) (use R in auto)
  qed
  have step: "\<forall>x y. path_via (insert p P) R x y \<longrightarrow> f p c x y"
  proof (intro allI impI)
    fix x y assume pv: "path_via (insert p P) R x y"
    from path_via_insert[OF pv] Cons.prems(1) ends[OF pv]
    show "f p c x y" by (auto simp: body)
  qed
  have "path_via (insert p P \<union> set ps) R x y" using Cons.prems(3) by simp
  from Cons.IH[OF step _ this] Cons.prems(2) show ?case by simp
qed

lemma t_closure_cells:
  assumes c0: "\<forall>x\<in>{1..n}. \<forall>y\<in>{1..n}. c x y \<longleftrightarrow> x = y \<or> (x, y) \<in> E"
    and E: "E \<subseteq> {1..n} \<times> {1..n}"
    and x: "x \<in> {1..n}" and y: "y \<in> {1..n}"
  shows "t_closure n c x y \<longleftrightarrow> (x, y) \<in> E\<^sup>*"
proof -
  let ?S = "{1..n}"
  let ?R = "Id_on ?S \<union> E"
  let ?f = "\<lambda>i c. fold (\<lambda>j c. if c j i
                     then fold (\<lambda>k c. if c i k then set_conn c j k True else c) [1..n] c
                     else c) [1..n] c"
  have body: "\<And>p c. ?f p c = (\<lambda>x y. c x y \<or> (x \<in> ?S \<and> c x p \<and> y \<in> ?S \<and> c p y))"
    by (simp add: pivot_rows)
  have RS: "?R \<subseteq> ?S \<times> ?S" using E by auto
  have tc: "t_closure n c = fold ?f [1..n] c" by (simp add: t_closure_def)
  have snd: "t_closure n c x y \<Longrightarrow> (x, y) \<in> ?R\<^sup>+"
    unfolding tc
    by (rule closure_sound[where S = ?S and f = ?f, OF body]) (use c0 x y in auto)
  have cmp: "(x, y) \<in> ?R\<^sup>+ \<Longrightarrow> t_closure n c x y"
  proof -
    assume "(x, y) \<in> ?R\<^sup>+"
    then have pv: "path_via ({} \<union> set [1..n]) ?R x y"
      using trancl_path_via[OF RS] by simp
    have init: "\<forall>x y. path_via {} ?R x y \<longrightarrow> c x y"
      using c0 E by (auto dest!: path_via_empty)
    show ?thesis
      unfolding tc
      by (rule closure_complete[where S = ?S and f = ?f and P = "{}" and R = ?R, OF body RS init _ pv]) simp
  qed
  have "(x, y) \<in> ?R\<^sup>+ \<longleftrightarrow> (x, y) \<in> E\<^sup>*"
  proof
    assume "(x, y) \<in> ?R\<^sup>+"
    moreover have "?R \<subseteq> E\<^sup>*" by auto
    ultimately have "(x, y) \<in> (E\<^sup>*)\<^sup>+" using trancl_mono by blast
    then show "(x, y) \<in> E\<^sup>*" by simp
  next
    assume "(x, y) \<in> E\<^sup>*"
    then have "x = y \<or> (x, y) \<in> E\<^sup>+" by (auto simp: rtrancl_eq_or_trancl)
    moreover have "(x, x) \<in> ?R\<^sup>+" using x by auto
    moreover have "E\<^sup>+ \<subseteq> ?R\<^sup>+" by (rule trancl_mono_subset) auto
    ultimately show "(x, y) \<in> ?R\<^sup>+" by auto
  qed
  with snd cmp show ?thesis by blast
qed

lemma direct_in_range: "valid_mat m n k \<Longrightarrow> direct m n k \<subseteq> {1..n} \<times> {1..n}"
  by (auto simp: valid_mat_def direct_def)

lemma closure_is_reachability:
  assumes "valid_mat m n k" and "1 \<le> i" and "i \<le> n" and "1 \<le> j" and "j \<le> n"
  shows "t_closure n (init_connections m n k c) i j \<longleftrightarrow> (i, j) \<in> (direct m n k)\<^sup>*"
proof (rule t_closure_cells)
  show "\<forall>x\<in>{1..n}. \<forall>y\<in>{1..n}. init_connections m n k c x y \<longleftrightarrow> x = y \<or> (x, y) \<in> direct m n k"
    by (simp add: init_connections_cells)
  show "direct m n k \<subseteq> {1..n} \<times> {1..n}" using assms(1) by (rule direct_in_range)
  show "i \<in> {1..n}" "j \<in> {1..n}" using assms by auto
qed


text \<open>
  C7.  After \<open>init_connections\<close> and \<open>t_closure\<close> on a transition matrix whose entries
  are in range, \<open>connected[i][j]\<close> holds, for \<open>i\<close> and \<open>j\<close> in \<open>1..nstates\<close>, exactly when
  \<open>j\<close> is reachable from \<open>i\<close> by zero or more direct transitions.
\<close>

theorem warshall_closure_is_reflexive_transitive_closure:
  assumes "valid_mat m n k" and "1 \<le> i" and "i \<le> n" and "1 \<le> j" and "j \<le> n"
  shows "t_closure n (init_connections m n k c) i j \<longleftrightarrow> (i, j) \<in> (direct m n k)\<^sup>*"
  using assms by (rule closure_is_reachability)

lemma ball_interval_list: "(\<forall>s\<in>{i..j::int}. P s) \<longleftrightarrow> list_all P [i..j]"
  by (simp add: list_all_iff)

lemma upto_1_numeral: "[1..numeral k] = 1 # [2..numeral k]"
  by (simp add: upto.simps)

lemma valid_mat_example: "valid_mat (matrix [[], [0, 2], [0, 3], [0, 3]]) 3 1"
  by (simp add: valid_mat_def ball_interval_list upto_1_numeral matrix_def array_def)

theorem warshall_closure_is_reflexive_transitive_closure_witness:
  "valid_mat (matrix [[], [0, 2], [0, 3], [0, 3]]) 3 1
   \<and> (1::int) \<le> 1 \<and> (1::int) \<le> 3 \<and> (1::int) \<le> 3 \<and> (3::int) \<le> 3
   \<and> (t_closure 3 (init_connections (matrix [[], [0, 2], [0, 3], [0, 3]]) 3 1 no_conn) 1 3
        \<longleftrightarrow> (1, 3) \<in> (direct (matrix [[], [0, 2], [0, 3], [0, 3]]) 3 1)\<^sup>*)"
  using valid_mat_example
    warshall_closure_is_reflexive_transitive_closure
      [OF valid_mat_example, of 1 3 no_conn]
  by simp

subsection \<open>Marking dead states\<close>

lemma scan_accept_terminates:
  "acc k = 0 \<Longrightarrow> j \<le> k \<Longrightarrow> \<exists>r. scan_accept acc row j = Some r"
proof (induction "nat (k - j)" arbitrary: j)
  case 0
  then have "j = k" by simp
  with 0 show ?case by (subst scan_accept.simps) simp
next
  case (Suc d)
  then have "nat (k - (j + 1)) = d" and "j + 1 \<le> k" by auto
  with Suc.hyps(1)[of "j + 1"] Suc.prems(1)
  obtain r where "scan_accept acc row (j + 1) = Some r" by auto
  then show ?case by (subst scan_accept.simps) simp
qed

lemma mark_unreachable_fold:
  "fold (mark_unreachable conn) xs d =
     d\<lparr>state_attrib := (\<lambda>s. if s \<in> set xs \<and> \<not> conn (init_state d) s then CHR ''D''
                            else state_attrib d s)\<rparr>"
proof (induction xs arbitrary: d)
  case Nil
  then show ?case by simp
next
  case (Cons x xs)
  show ?case
    unfolding fold_simps o_apply Cons.IH
    by (auto simp: fun_eq_iff mark_unreachable_def)
qed

lemma mark_not_accepting_loop:
  assumes "accept d k = 0" and "0 \<le> k"
  shows "\<exists>a'. for_each (mark_not_accepting conn) xs d = Some (d\<lparr>state_attrib := a'\<rparr>)
          \<and> (\<forall>s. a' s = state_attrib d s \<or>
                   (a' s = CHR ''D'' \<and> state_attrib d s \<noteq> CHR ''A''))"
  using assms
proof (induction xs arbitrary: d)
  case Nil
  have "d = d\<lparr>state_attrib := state_attrib d\<rparr>" by simp
  then show ?case by (metis for_each.simps(1))
next
  case (Cons x xs)
  from scan_accept_terminates[of "accept d" k 0 "conn x"] Cons.prems obtain r where
    r: "scan_accept (accept d) (conn x) 0 = Some r" by blast
  obtain a1 where b: "mark_not_accepting conn x d = Some (d\<lparr>state_attrib := a1\<rparr>)"
    and a1: "\<forall>s. a1 s = state_attrib d s \<or> (a1 s = CHR ''D'' \<and> state_attrib d s \<noteq> CHR ''A'')"
  proof (cases "state_attrib d x = CHR ''D'' \<or> state_attrib d x = CHR ''A'' \<or> r \<noteq> 0")
    case True
    have "d = d\<lparr>state_attrib := state_attrib d\<rparr>" by simp
    then have "mark_not_accepting conn x d = Some (d\<lparr>state_attrib := state_attrib d\<rparr>)"
      using True r by (auto simp: Let_def mark_not_accepting_def)
    then show ?thesis using that by blast
  next
    case False
    then have "mark_not_accepting conn x d = Some (d\<lparr>state_attrib := (state_attrib d)(x := CHR ''D'')\<rparr>)"
      using r by (auto simp: Let_def mark_not_accepting_def)
    then show ?thesis using that[of "(state_attrib d)(x := CHR ''D'')"] False by auto
  qed
  let ?d1 = "d\<lparr>state_attrib := a1\<rparr>"
  have "accept ?d1 k = 0" using Cons.prems by simp
  from Cons.IH[OF this Cons.prems(2)] obtain a' where
    f: "for_each (mark_not_accepting conn) xs ?d1 = Some (?d1\<lparr>state_attrib := a'\<rparr>)"
    and a': "\<forall>s. a' s = state_attrib ?d1 s \<or> (a' s = CHR ''D'' \<and> state_attrib ?d1 s \<noteq> CHR ''A'')"
    by blast
  have "for_each (mark_not_accepting conn) (x # xs) d = Some (d\<lparr>state_attrib := a'\<rparr>)"
    using b f by simp
  moreover have "\<forall>s. a' s = state_attrib d s \<or> (a' s = CHR ''D'' \<and> state_attrib d s \<noteq> CHR ''A'')"
  proof
    fix s
    from a1 have "a1 s = state_attrib d s \<or> (a1 s = CHR ''D'' \<and> state_attrib d s \<noteq> CHR ''A'')" by blast
    moreover from a' have "a' s = a1 s \<or> (a' s = CHR ''D'' \<and> a1 s \<noteq> CHR ''A'')" by simp
    ultimately show "a' s = state_attrib d s \<or> (a' s = CHR ''D'' \<and> state_attrib d s \<noteq> CHR ''A'')"
      by auto
  qed
  ultimately show ?case by blast
qed

lemma find_dead_states_result:
  assumes "accept dfa k = 0" and "0 \<le> k"
  shows "\<exists>a'. find_dead_states c dfa =
                 Some (t_closure (nstates dfa) (init_connections (mat dfa) (nstates dfa) (nab dfa) c),
                       dfa\<lparr>state_attrib := a'\<rparr>)
          \<and> (\<forall>s. state_attrib dfa s = CHR ''D'' \<longrightarrow> a' s = CHR ''D'')
          \<and> (\<forall>s. state_attrib dfa s = CHR ''A'' \<longrightarrow>
                   a' s = (if 1 \<le> s \<and> s \<le> nstates dfa
                              \<and> \<not> t_closure (nstates dfa)
                                     (init_connections (mat dfa) (nstates dfa) (nab dfa) c)
                                     (init_state dfa) s
                           then CHR ''D'' else CHR ''A''))
          \<and> (\<forall>s. a' s = CHR ''A'' \<longrightarrow> state_attrib dfa s = CHR ''A'')"
proof -
  let ?conn = "t_closure (nstates dfa) (init_connections (mat dfa) (nstates dfa) (nab dfa) c)"
  let ?a1 = "\<lambda>s. if s \<in> set [1..nstates dfa] \<and> \<not> ?conn (init_state dfa) s then CHR ''D''
                  else state_attrib dfa s"
  let ?d1 = "dfa\<lparr>state_attrib := ?a1\<rparr>"
  have "accept ?d1 k = 0" using assms by simp
  from mark_not_accepting_loop[OF this assms(2), of ?conn "[1..nstates dfa]"] obtain a' where
    f: "for_each (mark_not_accepting ?conn) [1..nstates dfa] ?d1 = Some (?d1\<lparr>state_attrib := a'\<rparr>)"
    and a': "\<forall>s. a' s = state_attrib ?d1 s \<or> (a' s = CHR ''D'' \<and> state_attrib ?d1 s \<noteq> CHR ''A'')"
    by blast
  have fd: "find_dead_states c dfa = Some (?conn, dfa\<lparr>state_attrib := a'\<rparr>)"
    unfolding find_dead_states_def Let_def mark_unreachable_fold
    using f by simp
  have DA: "CHR ''D'' \<noteq> CHR ''A''" by simp
  have a1: "\<And>s. a' s = ?a1 s \<or> (a' s = CHR ''D'' \<and> ?a1 s \<noteq> CHR ''A'')"
    using a' by simp
  have p1: "\<forall>s. state_attrib dfa s = CHR ''D'' \<longrightarrow> a' s = CHR ''D''"
  proof (intro allI impI)
    fix s assume "state_attrib dfa s = CHR ''D''"
    then have "?a1 s = CHR ''D''" by simp
    with a1[of s] show "a' s = CHR ''D''" by metis
  qed
  have p2: "\<forall>s. state_attrib dfa s = CHR ''A'' \<longrightarrow>
                   a' s = (if 1 \<le> s \<and> s \<le> nstates dfa \<and> \<not> ?conn (init_state dfa) s
                           then CHR ''D'' else CHR ''A'')"
  proof (intro allI impI)
    fix s assume A: "state_attrib dfa s = CHR ''A''"
    then have e: "?a1 s = (if 1 \<le> s \<and> s \<le> nstates dfa \<and> \<not> ?conn (init_state dfa) s
                           then CHR ''D'' else CHR ''A'')" by simp
    then have "?a1 s = CHR ''D'' \<or> ?a1 s = CHR ''A''" by metis
    with a1[of s] have "a' s = ?a1 s" by metis
    with e show "a' s = (if 1 \<le> s \<and> s \<le> nstates dfa \<and> \<not> ?conn (init_state dfa) s
                           then CHR ''D'' else CHR ''A'')" by metis
  qed
  have p3: "\<forall>s. a' s = CHR ''A'' \<longrightarrow> state_attrib dfa s = CHR ''A''"
  proof (intro allI impI)
    fix s assume A: "a' s = CHR ''A''"
    with a1[of s] DA have "?a1 s = CHR ''A''" by metis
    with DA show "state_attrib dfa s = CHR ''A''" by (metis (full_types))
  qed
  note fd
  moreover note p1 p2 p3
  ultimately show ?thesis by blast
qed

theorem find_dead_states_accept_counterexample:
  "state_attrib two_loops 2 = CHR ''A'' \<and>
   map_option (cells 2 \<circ> state_attrib \<circ> snd) (find_dead_states no_conn two_loops)
     = Some [CHR ''D'', CHR ''D'']"
  by code_simp


text \<open>
  C6 (amended).  \<open>find_dead_states\<close> never changes the attribute of a state that is
  already dead, and an accepting state keeps its attribute exactly when it is reachable
  from the initial state: the first loop marks every state of \<open>1..nstates\<close> that is not
  reachable from \<open>init_state\<close> as dead, accepting or not.
\<close>

theorem find_dead_states_keeps_dead_and_reachable_accept:
  assumes "valid_mat (mat dfa) (nstates dfa) (nab dfa)"
    and "1 \<le> init_state dfa" and "init_state dfa \<le> nstates dfa"
    and "accept dfa k = 0" and "0 \<le> k"
  shows "\<exists>c' dfa'. find_dead_states c dfa = Some (c', dfa')
           \<and> (\<forall>s. state_attrib dfa s = CHR ''D'' \<longrightarrow> state_attrib dfa' s = CHR ''D'')
           \<and> (\<forall>s. state_attrib dfa s = CHR ''A'' \<longrightarrow>
                    state_attrib dfa' s =
                      (if 1 \<le> s \<and> s \<le> nstates dfa
                          \<and> (init_state dfa, s) \<notin> (direct (mat dfa) (nstates dfa) (nab dfa))\<^sup>*
                       then CHR ''D'' else CHR ''A''))"
proof -
  let ?conn = "t_closure (nstates dfa) (init_connections (mat dfa) (nstates dfa) (nab dfa) c)"
  from find_dead_states_result[OF assms(4,5), of c] obtain a' where
    f: "find_dead_states c dfa = Some (?conn, dfa\<lparr>state_attrib := a'\<rparr>)"
    and d: "\<forall>s. state_attrib dfa s = CHR ''D'' \<longrightarrow> a' s = CHR ''D''"
    and a: "\<forall>s. state_attrib dfa s = CHR ''A'' \<longrightarrow>
                   a' s = (if 1 \<le> s \<and> s \<le> nstates dfa \<and> \<not> ?conn (init_state dfa) s
                           then CHR ''D'' else CHR ''A'')"
    by blast
  have "\<forall>s. state_attrib dfa s = CHR ''A'' \<longrightarrow>
              a' s = (if 1 \<le> s \<and> s \<le> nstates dfa
                          \<and> (init_state dfa, s) \<notin> (direct (mat dfa) (nstates dfa) (nab dfa))\<^sup>*
                      then CHR ''D'' else CHR ''A'')"
  proof (intro allI impI)
    fix s assume A: "state_attrib dfa s = CHR ''A''"
    show "a' s = (if 1 \<le> s \<and> s \<le> nstates dfa
                          \<and> (init_state dfa, s) \<notin> (direct (mat dfa) (nstates dfa) (nab dfa))\<^sup>*
                      then CHR ''D'' else CHR ''A'')"
    proof (cases "1 \<le> s \<and> s \<le> nstates dfa")
      case True
      then have "?conn (init_state dfa) s \<longleftrightarrow>
                   (init_state dfa, s) \<in> (direct (mat dfa) (nstates dfa) (nab dfa))\<^sup>*"
        using closure_is_reachability[OF assms(1,2,3), of s c] by simp
      with a A True show ?thesis by simp
    next
      case False
      with a A show ?thesis by auto
    qed
  qed
  with f d show ?thesis by simp
qed

lemma two_loops_valid: "valid_mat (mat two_loops) (nstates two_loops) (nab two_loops)"
  by (simp add: two_loops_def valid_mat_def ball_interval_list upto_1_numeral matrix_def array_def)

theorem find_dead_states_keeps_dead_and_reachable_accept_witness:
  "valid_mat (mat two_loops) (nstates two_loops) (nab two_loops)
   \<and> 1 \<le> init_state two_loops \<and> init_state two_loops \<le> nstates two_loops
   \<and> accept two_loops 1 = 0 \<and> (0::int) \<le> 1
   \<and> (\<exists>c' dfa'. find_dead_states no_conn two_loops = Some (c', dfa')
           \<and> (\<forall>s. state_attrib two_loops s = CHR ''D'' \<longrightarrow> state_attrib dfa' s = CHR ''D'')
           \<and> (\<forall>s. state_attrib two_loops s = CHR ''A'' \<longrightarrow>
                    state_attrib dfa' s =
                      (if 1 \<le> s \<and> s \<le> nstates two_loops
                          \<and> (init_state two_loops, s)
                               \<notin> (direct (mat two_loops) (nstates two_loops) (nab two_loops))\<^sup>*
                       then CHR ''D'' else CHR ''A'')))"
proof -
  have h2: "1 \<le> init_state two_loops" and h3: "init_state two_loops \<le> nstates two_loops"
    and h4: "accept two_loops 1 = 0" and h5: "(0::int) \<le> 1"
    by (simp_all add: two_loops_def arr_of_def array_def)
  show ?thesis
    using two_loops_valid h2 h3 h4 h5
      find_dead_states_keeps_dead_and_reachable_accept[OF two_loops_valid h2 h3 h4 h5, of no_conn]
    by blast
qed

subsection \<open>find and Union on flat vectors\<close>

lemma find_c_flat:
  assumes "g x > 0 \<longrightarrow> g (g x) \<le> 0"
  shows "find_c x g = Some (flat_root g x, g)"
proof (cases "g x > 0")
  case True
  with assms have r: "g (g x) \<le> 0" by simp
  have "find_root g (g x) = Some (g x)" using r by (subst find_root.simps) simp
  then have fr: "find_root g x = Some (g x)" using True by (subst find_root.simps) simp
  have u: "g(x := g x) = g" by (rule fun_upd_triv)
  have "compress_path (g x) g (g x) = Some g" using r by (subst compress_path.simps) simp
  then have "compress_path (g x) g x = Some g"
    using True u by (subst compress_path.simps) simp
  with fr True show ?thesis by (simp add: find_c_def flat_root_def)
next
  case False
  then have "find_root g x = Some x" by (subst find_root.simps) simp
  moreover have "compress_path x g x = Some g" using False by (subst compress_path.simps) simp
  ultimately show ?thesis using False by (simp add: find_c_def flat_root_def)
qed

lemma Union_c_fresh_pair:
  assumes "g a = 0" and "g b = 0" and "a \<noteq> b"
  shows "Union_c a b g = Some (g(b := - 1, a := b))"
proof -
  have "find_c a g = Some (a, g)" using find_c_flat[of g a] assms by (simp add: flat_root_def)
  moreover have "find_c b g = Some (b, g)" using find_c_flat[of g b] assms by (simp add: flat_root_def)
  ultimately show ?thesis using assms by (simp add: Union_c_def)
qed

lemma Union_c_fresh_star:
  assumes "g a = r" and "r > 0" and "g r < 0" and "g b = 0"
  shows "Union_c a b g = Some (g(r := g r - 1, b := r))"
proof -
  have "find_c a g = Some (r, g)" using find_c_flat[of g a] assms by (simp add: flat_root_def)
  moreover have "find_c b g = Some (b, g)" using find_c_flat[of g b] assms by (simp add: flat_root_def)
  moreover have "r \<noteq> b" using assms by auto
  ultimately show ?thesis using assms by (simp add: Union_c_def)
qed

lemma Union_c_append:
  assumes C: "distinct (a # rest)" and pos: "\<forall>x\<in>set (a # rest). x > 0" and b: "b \<notin> set (a # rest)"
    and cells: "\<forall>x\<in>set (a # rest). g x = star_cell (a # rest) x" and fresh: "g b = 0"
  shows "Union_c a b g =
           Some (\<lambda>x. if x \<in> set (a # rest @ [b]) then star_cell (a # rest @ [b]) x else g x)"
proof (cases rest)
  case Nil
  with cells have "g a = 0" by (simp add: star_cell_def)
  moreover from b have "a \<noteq> b" by auto
  ultimately have "Union_c a b g = Some (g(b := - 1, a := b))"
    using fresh by (simp add: Union_c_fresh_pair)
  moreover have "g(b := - 1, a := b) =
       (\<lambda>x. if x \<in> set (a # rest @ [b]) then star_cell (a # rest @ [b]) x else g x)"
    using Nil \<open>a \<noteq> b\<close> by (auto simp: fun_eq_iff star_cell_def)
  ultimately show ?thesis by simp
next
  case (Cons s rest')
  from C Cons have "a \<noteq> s" by auto
  with cells Cons have ga: "g a = s" by (simp add: star_cell_def)
  from cells Cons have gs: "g s = - 1 - int (length rest')" by (simp add: star_cell_def)
  from pos Cons have "s > 0" by simp
  from gs have "g s < 0" by simp
  have "Union_c a b g = Some (g(s := g s - 1, b := s))"
    using ga \<open>s > 0\<close> \<open>g s < 0\<close> fresh by (rule Union_c_fresh_star)
  moreover have "g(s := g s - 1, b := s) =
       (\<lambda>x. if x \<in> set (a # rest @ [b]) then star_cell (a # rest @ [b]) x else g x)"
  proof
    fix x
    show "(g(s := g s - 1, b := s)) x =
       (if x \<in> set (a # rest @ [b]) then star_cell (a # rest @ [b]) x else g x)"
      using Cons b cells gs by (auto simp: star_cell_def)
  qed
  ultimately show ?thesis by simp
qed

subsection \<open>Canonical cells\<close>

lemma klass_mem: "x \<in> set ms \<Longrightarrow> x \<in> set (klass key ms x)"
  by (simp add: klass_def)

lemma klass_subset: "y \<in> set (klass key ms x) \<Longrightarrow> y \<in> set ms \<and> key y = key x"
  by (simp add: klass_def)

lemma klass_same: "key y = key x \<Longrightarrow> klass key ms y = klass key ms x"
  by (simp add: klass_def)

lemma star_cell_cases:
  assumes "x \<in> set C"
  shows "(star_cell C x = 0 \<and> C = [x])
       \<or> (\<exists>a b rest. C = a # b # rest \<and>
             (if x = b then star_cell C x = - 1 - int (length rest) else star_cell C x = b))"
proof (cases C)
  case Nil
  with assms show ?thesis by simp
next
  case (Cons a C')
  show ?thesis
  proof (cases C')
    case Nil
    with Cons assms show ?thesis by (simp add: star_cell_def)
  next
    case (Cons b rest)
    with \<open>C = a # C'\<close> show ?thesis by (simp add: star_cell_def)
  qed
qed

text \<open>What a vector that agrees with the canonical cells of a classification looks like.\<close>

lemma canon_parent:
  assumes pos: "\<forall>x\<in>set ms. x > 0"
    and cells: "\<forall>x\<in>set ms. g x = canon_cell key ms x"
    and x: "x \<in> set ms" and gx: "g x > 0"
  shows "g x \<in> set ms \<and> key (g x) = key x \<and> g (g x) < 0"
proof -
  let ?C = "klass key ms x"
  have xC: "x \<in> set ?C" using x by (rule klass_mem)
  have e: "g x = star_cell ?C x" using cells x by (simp add: canon_cell_def)
  from star_cell_cases[OF xC] e gx obtain a b rest where
    C: "?C = a # b # rest" and xb: "x \<noteq> b" and gb: "g x = b"
    by (auto split: if_splits)
  have bC: "b \<in> set ?C" using C by simp
  then have bm: "b \<in> set ms" and kb: "key b = key x" using klass_subset[of b key ms x] by simp_all
  have "klass key ms b = ?C" using kb by (rule klass_same)
  then have "g b = star_cell ?C b" using cells bm by (simp add: canon_cell_def)
  then have "g b < 0" using C by (simp add: star_cell_def)
  with gb bm kb show ?thesis by simp
qed

lemma canon_root:
  assumes pos: "\<forall>x\<in>set ms. x > 0"
    and cells: "\<forall>x\<in>set ms. g x = canon_cell key ms x"
    and x: "x \<in> set ms"
  shows "flat_root g x \<in> set ms \<and> key (flat_root g x) = key x \<and> g (flat_root g x) \<le> 0"
  using canon_parent[OF pos cells x] x by (auto simp: flat_root_def)

lemma canon_same_root:
  assumes pos: "\<forall>x\<in>set ms. x > 0"
    and cells: "\<forall>x\<in>set ms. g x = canon_cell key ms x"
    and x: "x \<in> set ms" and y: "y \<in> set ms" and k: "key x = key y"
  shows "flat_root g x = flat_root g y"
proof -
  let ?C = "klass key ms x"
  have Cy: "klass key ms y = ?C" using k by (simp add: klass_def)
  have xC: "x \<in> set ?C" using x by (rule klass_mem)
  have yC: "y \<in> set ?C" using klass_mem[OF y, of key] Cy by simp
  have ex: "g x = star_cell ?C x" using cells x by (simp add: canon_cell_def)
  have ey: "g y = star_cell ?C y" using cells y Cy by (simp add: canon_cell_def)
  from star_cell_cases[OF xC] show ?thesis
  proof
    assume "star_cell ?C x = 0 \<and> ?C = [x]"
    with yC show ?thesis by simp
  next
    assume "\<exists>a b rest. ?C = a # b # rest \<and>
             (if x = b then star_cell ?C x = - 1 - int (length rest) else star_cell ?C x = b)"
    then obtain a b rest where C: "?C = a # b # rest" by blast
    have "b \<in> set ?C" using C by simp
    then have "b \<in> set ms" using klass_subset[of b key ms x] by simp
    with pos have "b > 0" by simp
    have "flat_root g x = b" using ex C \<open>b > 0\<close> by (auto simp: flat_root_def star_cell_def)
    moreover have "flat_root g y = b" using ey C \<open>b > 0\<close> by (auto simp: flat_root_def star_cell_def)
    ultimately show ?thesis by simp
  qed
qed

lemma canon_root_iff:
  assumes pos: "\<forall>x\<in>set ms. x > 0"
    and cells: "\<forall>x\<in>set ms. g x = canon_cell key ms x"
    and x: "x \<in> set ms" and y: "y \<in> set ms"
  shows "flat_root g x = flat_root g y \<longleftrightarrow> key x = key y"
  using canon_same_root[OF pos cells x y] canon_root[OF pos cells x] canon_root[OF pos cells y]
  by metis

lemma canon_klass_root:
  assumes pos: "\<forall>x\<in>set ms. x > 0"
    and cells: "\<forall>x\<in>set ms. g x = canon_cell key ms x"
    and x: "x \<in> set ms"
  shows "klass (flat_root g) ms x = klass key ms x"
  unfolding klass_def
  by (rule filter_cong) (use canon_root_iff[OF pos cells _ x] in auto)

lemma canonical_onI:
  assumes pos: "\<forall>x\<in>set ms. x > 0"
    and cells: "\<forall>x\<in>set ms. g x = canon_cell key ms x"
  shows "canonical_on ms g"
  unfolding canonical_on_def canon_cell_def
  using canon_klass_root[OF pos cells] cells by (simp add: canon_cell_def)

subsection \<open>Building the classes of one group\<close>

lemma unify_pair_loop:
  fixes key :: "state_t \<Rightarrow> 'k"
  assumes same: "\<And>y. y \<in> set ys \<Longrightarrow>
                   same_transitions a y (mat dfa) (nab dfa) g = Some (key a = key y, g)"
    and dist: "distinct (a # K' @ ys)" and pos: "\<forall>x\<in>set (a # K' @ ys). x > 0"
    and cells: "\<forall>x\<in>set (a # K'). new x = star_cell (a # K') x"
    and fresh: "\<forall>y\<in>set ys. \<not> unified y \<longrightarrow> new y = 0"
  shows "for_each (unify_pair dfa a) ys (g, new, unified) =
           Some (g,
                 (\<lambda>x. if x \<in> set (a # K' @ filter (\<lambda>y. \<not> unified y \<and> key y = key a) ys)
                       then star_cell (a # K' @ filter (\<lambda>y. \<not> unified y \<and> key y = key a) ys) x
                       else new x),
                 (\<lambda>x. if x \<in> set (filter (\<lambda>y. \<not> unified y \<and> key y = key a) ys) then True
                       else unified x))"
  using assms
proof (induction ys arbitrary: K' new unified)
  case Nil
  show ?case using Nil.prems(4) by (auto simp: fun_eq_iff)
next
  case (Cons y ys)
  have same': "\<And>z. z \<in> set ys \<Longrightarrow>
                   same_transitions a z (mat dfa) (nab dfa) g = Some (key a = key z, g)"
    using Cons.prems(1) by simp
  have sy: "same_transitions a y (mat dfa) (nab dfa) g = Some (key a = key y, g)"
    using Cons.prems(1) by simp
  have ynot: "y \<notin> set ys" "y \<notin> set (a # K')" using Cons.prems(2) by auto
  show ?case
  proof (cases "\<not> unified y \<and> key y = key a")
    case False
    have step: "unify_pair dfa a y (g, new, unified) = Some (g, new, unified)"
      using False sy by (auto simp: unify_pair_def)
    have d: "distinct (a # K' @ ys)" using Cons.prems(2) by auto
    have p: "\<forall>x\<in>set (a # K' @ ys). x > 0" using Cons.prems(3) by auto
    have f: "\<forall>y\<in>set ys. \<not> unified y \<longrightarrow> new y = 0" using Cons.prems(5) by auto
    have fy: "filter (\<lambda>z. \<not> unified z \<and> key z = key a) (y # ys)
                = filter (\<lambda>z. \<not> unified z \<and> key z = key a) ys"
      using False by auto
    from Cons.IH[OF same' d p Cons.prems(4) f] step show ?thesis unfolding fy by simp
  next
    case True
    then have ny: "new y = 0" using Cons.prems(5) by simp
    let ?new1 = "\<lambda>x. if x \<in> set (a # K' @ [y]) then star_cell (a # K' @ [y]) x else new x"
    let ?u1 = "unified(y := True)"
    have d0: "distinct (a # K')" using Cons.prems(2) by auto
    have p0: "\<forall>x\<in>set (a # K'). x > 0" using Cons.prems(3) by auto
    have U: "Union_c a y new = Some ?new1"
      using Union_c_append[OF d0 p0 ynot(2) Cons.prems(4) ny] by simp
    have step: "unify_pair dfa a y (g, new, unified) = Some (g, ?new1, ?u1)"
      using True sy U by (simp add: unify_pair_def)
    have d: "distinct (a # (K' @ [y]) @ ys)" using Cons.prems(2) by auto
    have p: "\<forall>x\<in>set (a # (K' @ [y]) @ ys). x > 0" using Cons.prems(3) by auto
    have c: "\<forall>x\<in>set (a # (K' @ [y])). ?new1 x = star_cell (a # (K' @ [y])) x" by simp
    have f: "\<forall>z\<in>set ys. \<not> ?u1 z \<longrightarrow> ?new1 z = 0"
      using Cons.prems(5) Cons.prems(2) by auto
    have flt: "filter (\<lambda>z. \<not> ?u1 z \<and> key z = key a) ys
                 = filter (\<lambda>z. \<not> unified z \<and> key z = key a) ys"
      by (rule filter_cong) (use ynot in auto)
    let ?F = "filter (\<lambda>z. \<not> unified z \<and> key z = key a) ys"
    have fy: "filter (\<lambda>z. \<not> unified z \<and> key z = key a) (y # ys) = y # ?F"
      using True by simp
    from Cons.IH[OF same' d p c f]
    have "for_each (unify_pair dfa a) ys (g, ?new1, ?u1) =
           Some (g,
                 (\<lambda>x. if x \<in> set (a # (K' @ [y]) @ ?F)
                       then star_cell (a # (K' @ [y]) @ ?F) x else ?new1 x),
                 (\<lambda>x. if x \<in> set ?F then True else ?u1 x))"
      unfolding flt .
    moreover have "(\<lambda>x. if x \<in> set (a # (K' @ [y]) @ ?F)
                       then star_cell (a # (K' @ [y]) @ ?F) x else ?new1 x)
                 = (\<lambda>x. if x \<in> set (a # K' @ y # ?F)
                       then star_cell (a # K' @ y # ?F) x else new x)"
      by (auto simp: fun_eq_iff)
    moreover have "(\<lambda>x. if x \<in> set ?F then True else ?u1 x)
                 = (\<lambda>x. if x \<in> set (y # ?F) then True else unified x)"
      by (auto simp: fun_eq_iff)
    ultimately show ?thesis using step unfolding fy by simp
  qed
qed

lemma klass_unseen:
  assumes "key a \<notin> key ` set pre"
  shows "klass key (pre @ a # rest) a = a # filter (\<lambda>y. key y = key a) rest"
proof -
  have "\<forall>y\<in>set pre. key y \<noteq> key a" using assms by (metis image_eqI)
  then have "filter (\<lambda>y. key y = key a) pre = []"
    by (simp add: filter_empty_conv)
  then show ?thesis by (simp add: klass_def)
qed

lemma unify_members_step:
  "rest \<noteq> [] \<Longrightarrow>
     unify_members dfa (mi # rest) (og, ng, u) =
       (if u mi then unify_members dfa rest (og, ng, u)
        else Option.bind (for_each (unify_pair dfa mi) rest (og, ng, u(mi := True)))
               (unify_members dfa rest))"
  by (cases rest) simp_all

lemma unify_members_inv:
  fixes key :: "state_t \<Rightarrow> 'k"
  assumes same: "\<And>x y. x \<in> set (pre @ ms) \<Longrightarrow> y \<in> set (pre @ ms) \<Longrightarrow>
                   same_transitions x y (mat dfa) (nab dfa) g = Some (key x = key y, g)"
    and dist: "distinct (pre @ ms)" and pos: "\<forall>x\<in>set (pre @ ms). x > 0"
    and i1: "\<forall>x\<in>set (pre @ ms). unified x \<longleftrightarrow> key x \<in> key ` set pre"
    and i2: "\<forall>x\<in>set (pre @ ms). key x \<in> key ` set pre \<longrightarrow> new x = canon_cell key (pre @ ms) x"
    and i3: "\<forall>x\<in>set (pre @ ms). key x \<notin> key ` set pre \<longrightarrow> new x = 0"
  shows "\<exists>new' unified'. unify_members dfa ms (g, new, unified) = Some (g, new', unified')
           \<and> (\<forall>x\<in>set (pre @ ms). new' x = canon_cell key (pre @ ms) x)
           \<and> (\<forall>x. x \<notin> set (pre @ ms) \<longrightarrow> new' x = new x)"
  using assms
proof (induction ms arbitrary: pre new unified)
  case Nil
  then show ?case by auto
next
  case (Cons mi rest)
  let ?M = "pre @ mi # rest"
  show ?case
  proof (cases rest)
    case Nil
    have "\<forall>x\<in>set ?M. new x = canon_cell key ?M x"
    proof
      fix x assume x: "x \<in> set ?M"
      show "new x = canon_cell key ?M x"
      proof (cases "key x \<in> key ` set pre")
        case True
        with Cons.prems(5) x show ?thesis by blast
      next
        case False
        with x Nil have "x = mi" by auto
        have "klass key ?M mi = [mi]"
          using klass_unseen[of key mi pre rest] False \<open>x = mi\<close> Nil by simp
        then have "canon_cell key ?M mi = 0" by (simp add: canon_cell_def star_cell_def)
        moreover have "new mi = 0" using Cons.prems(6) False \<open>x = mi\<close> by auto
        ultimately show ?thesis using \<open>x = mi\<close> by simp
      qed
    qed
    then show ?thesis using Nil by auto
  next
    case (Cons r rs)
    have M': "(pre @ [mi]) @ rest = ?M" by simp
    have same': "\<And>x y. x \<in> set ((pre @ [mi]) @ rest) \<Longrightarrow> y \<in> set ((pre @ [mi]) @ rest) \<Longrightarrow>
                   same_transitions x y (mat dfa) (nab dfa) g = Some (key x = key y, g)"
      using Cons.prems(1) by simp
    have dist': "distinct ((pre @ [mi]) @ rest)" using Cons.prems(2) by simp
    have pos': "\<forall>x\<in>set ((pre @ [mi]) @ rest). x > 0" using Cons.prems(3) by simp
    show ?thesis
    proof (cases "unified mi")
      case True
      then have kin: "key mi \<in> key ` set pre" using Cons.prems(4) by simp
      then have keys: "key ` set (pre @ [mi]) = key ` set pre" by auto
      have j1: "\<forall>x\<in>set ((pre @ [mi]) @ rest). unified x \<longleftrightarrow> key x \<in> key ` set (pre @ [mi])"
        unfolding keys M' using Cons.prems(4) .
      have j2: "\<forall>x\<in>set ((pre @ [mi]) @ rest). key x \<in> key ` set (pre @ [mi]) \<longrightarrow>
                   new x = canon_cell key ((pre @ [mi]) @ rest) x"
        unfolding keys M' using Cons.prems(5) .
      have j3: "\<forall>x\<in>set ((pre @ [mi]) @ rest). key x \<notin> key ` set (pre @ [mi]) \<longrightarrow> new x = 0"
        unfolding keys M' using Cons.prems(6) .
      from Cons.IH[OF same' dist' pos' j1 j2 j3] obtain new' unified' where
        "unify_members dfa rest (g, new, unified) = Some (g, new', unified')"
        "\<forall>x\<in>set ?M. new' x = canon_cell key ?M x"
        "\<forall>x. x \<notin> set ?M \<longrightarrow> new' x = new x"
        unfolding M' by blast
      moreover have ne: "rest \<noteq> []" using \<open>rest = r # rs\<close> by simp
      have "unify_members dfa (mi # rest) (g, new, unified) = unify_members dfa rest (g, new, unified)"
        unfolding unify_members_step[OF ne] using True by simp
      ultimately show ?thesis by simp
    next
      case False
      then have kout: "key mi \<notin> key ` set pre" using Cons.prems(4) by simp
      then have nmi: "new mi = 0" using Cons.prems(6) by simp
      let ?u0 = "unified(mi := True)"
      let ?F = "filter (\<lambda>y. key y = key mi) rest"
      have flt: "filter (\<lambda>y. \<not> ?u0 y \<and> key y = key mi) rest = ?F"
      proof (rule filter_cong[OF refl])
        fix y assume y: "y \<in> set rest"
        then have "y \<noteq> mi" using Cons.prems(2) by auto
        moreover have "unified y \<longleftrightarrow> key y \<in> key ` set pre"
          using Cons.prems(4) y by simp
        then have "key y = key mi \<Longrightarrow> \<not> unified y"
          using kout by simp
        ultimately show "(\<not> ?u0 y \<and> key y = key mi) = (key y = key mi)" by auto
      qed
      have sm: "\<And>y. y \<in> set rest \<Longrightarrow>
                   same_transitions mi y (mat dfa) (nab dfa) g = Some (key mi = key y, g)"
        using Cons.prems(1) by simp
      have d0: "distinct (mi # [] @ rest)" using Cons.prems(2) by simp
      have p0: "\<forall>x\<in>set (mi # [] @ rest). x > 0" using Cons.prems(3) by simp
      have c0: "\<forall>x\<in>set (mi # []). new x = star_cell (mi # []) x"
        using nmi by (simp add: star_cell_def)
      have f0: "\<forall>y\<in>set rest. \<not> ?u0 y \<longrightarrow> new y = 0"
      proof (intro ballI impI)
        fix y assume y: "y \<in> set rest" and "\<not> ?u0 y"
        then have "\<not> unified y" by (auto split: if_splits)
        with Cons.prems(4) y have "key y \<notin> key ` set pre" by simp
        with Cons.prems(6) y show "new y = 0" by simp
      qed
      let ?K = "mi # ?F"
      let ?new1 = "\<lambda>x. if x \<in> set ?K then star_cell ?K x else new x"
      let ?u1 = "\<lambda>x. if x \<in> set ?F then True else ?u0 x"
      have inner: "for_each (unify_pair dfa mi) rest (g, new, ?u0) = Some (g, ?new1, ?u1)"
        using unify_pair_loop[of rest mi dfa g key "[]" new ?u0, OF sm d0 p0 c0 f0]
        unfolding flt append_Nil .
      have K: "klass key ?M mi = ?K" using kout by (rule klass_unseen)
      have nopre: "\<forall>y\<in>set pre. key y \<noteq> key mi" using kout by (metis image_eqI)
      have inK: "\<And>x. x \<in> set ?M \<Longrightarrow> key x = key mi \<longleftrightarrow> x \<in> set ?K"
        using nopre by auto
      have keys: "key ` set (pre @ [mi]) = insert (key mi) (key ` set pre)" by auto
      have j1: "\<forall>x\<in>set ((pre @ [mi]) @ rest). ?u1 x \<longleftrightarrow> key x \<in> key ` set (pre @ [mi])"
        unfolding keys M'
      proof
        fix x assume x: "x \<in> set ?M"
        have ux: "unified x \<longleftrightarrow> key x \<in> key ` set pre" using Cons.prems(4) x by blast
        have kx: "key x = key mi \<longleftrightarrow> x = mi \<or> x \<in> set ?F" using inK[OF x] by simp
        show "?u1 x \<longleftrightarrow> key x \<in> insert (key mi) (key ` set pre)"
        proof (cases "key x = key mi")
          case True
          with kx show ?thesis by auto
        next
          case False
          with kx have "x \<noteq> mi" "x \<notin> set ?F" by auto
          with ux False show ?thesis by simp
        qed
      qed
      have j2: "\<forall>x\<in>set ((pre @ [mi]) @ rest). key x \<in> key ` set (pre @ [mi]) \<longrightarrow>
                   ?new1 x = canon_cell key ((pre @ [mi]) @ rest) x"
      proof (intro ballI impI)
        fix x assume x0: "x \<in> set ((pre @ [mi]) @ rest)" and k0: "key x \<in> key ` set (pre @ [mi])"
        have x: "x \<in> set ?M" using x0 by simp
        have k: "key x = key mi \<or> key x \<in> key ` set pre" using k0 unfolding keys by blast
        have "?new1 x = canon_cell key ?M x"
        proof (cases "key x = key mi")
          case True
          then have xK: "x \<in> set ?K" using inK[OF x] by blast
          have "klass key ?M x = klass key ?M mi" using True by (rule klass_same)
          then have "klass key ?M x = ?K" using K by (rule trans)
          then have "canon_cell key ?M x = star_cell ?K x" by (simp only: canon_cell_def)
          with xK show ?thesis by (simp only: if_True)
        next
          case False
          then have xK: "x \<notin> set ?K" using inK[OF x] by blast
          have "key x \<in> key ` set pre" using k False by blast
          then have "new x = canon_cell key ?M x" using Cons.prems(5) x by blast
          with xK show ?thesis by (simp only: if_False)
        qed
        then show "?new1 x = canon_cell key ((pre @ [mi]) @ rest) x" by (simp only: M')
      qed
      have j3: "\<forall>x\<in>set ((pre @ [mi]) @ rest). key x \<notin> key ` set (pre @ [mi]) \<longrightarrow> ?new1 x = 0"
      proof (intro ballI impI)
        fix x assume x0: "x \<in> set ((pre @ [mi]) @ rest)" and k0: "key x \<notin> key ` set (pre @ [mi])"
        have x: "x \<in> set ?M" using x0 by simp
        have k1: "key x \<noteq> key mi" using k0 by (metis keys insertI1)
        have k2: "key x \<notin> key ` set pre" using k0 by (metis keys insertI2)
        have "x \<notin> set ?K" using inK[OF x] k1 by blast
        moreover have "new x = 0" using Cons.prems(6) x k2 by blast
        ultimately show "?new1 x = 0" by (simp only: if_False)
      qed
      from Cons.IH[OF same' dist' pos' j1 j2 j3] obtain new' unified' where
        r: "unify_members dfa rest (g, ?new1, ?u1) = Some (g, new', unified')"
        "\<forall>x\<in>set ?M. new' x = canon_cell key ?M x"
        "\<forall>x. x \<notin> set ?M \<longrightarrow> new' x = ?new1 x"
        unfolding M' by blast
      have ne: "rest \<noteq> []" using \<open>rest = r # rs\<close> by simp
      have "unify_members dfa (mi # rest) (g, new, unified) = Some (g, new', unified')"
        unfolding unify_members_step[OF ne] using False inner r(1) by simp
      moreover have "\<forall>x. x \<notin> set ?M \<longrightarrow> new' x = new x"
        using r(3) by auto
      ultimately show ?thesis using r(2) by blast
    qed
  qed
qed

lemma unify_members_canon:
  fixes key :: "state_t \<Rightarrow> 'k"
  assumes same: "\<And>x y. x \<in> set ms \<Longrightarrow> y \<in> set ms \<Longrightarrow>
                   same_transitions x y (mat dfa) (nab dfa) g = Some (key x = key y, g)"
    and dist: "distinct ms" and pos: "\<forall>x\<in>set ms. x > 0"
    and init: "\<forall>x\<in>set ms. new x = 0 \<and> \<not> unified x"
  shows "\<exists>new' unified'. unify_members dfa ms (g, new, unified) = Some (g, new', unified')
           \<and> (\<forall>x\<in>set ms. new' x = canon_cell key ms x)
           \<and> (\<forall>x. x \<notin> set ms \<longrightarrow> new' x = new x)"
  using unify_members_inv[of "[]" ms dfa g key unified new] assms by simp

subsection \<open>The loops of partition on a flat vector\<close>

lemma find_c_flat_on:
  "flat_on n g \<Longrightarrow> 1 \<le> x \<Longrightarrow> x \<le> n \<Longrightarrow> find_c x g = Some (flat_root g x, g)"
  by (rule find_c_flat) (simp add: flat_on_def)

lemma find_c_cls:
  assumes "flat_on n g" and "0 \<le> t" and "t \<le> n"
  shows "(if t > 0 then find_c t g else Some (t, g)) = Some (cls g t, g)"
  using assms find_c_flat_on[of n g t] by (simp add: cls_def)

lemma same_transitions_loop_flat:
  assumes "flat_on n g"
    and "\<forall>j\<in>set js. 0 \<le> m s1 j \<and> m s1 j \<le> n \<and> 0 \<le> m s2 j \<and> m s2 j \<le> n"
  shows "same_transitions_loop js s1 s2 m g =
           Some (map (\<lambda>j. cls g (m s1 j)) js = map (\<lambda>j. cls g (m s2 j)) js, g)"
  using assms(2)
proof (induction js)
  case Nil
  then show ?case by simp
next
  case (Cons j js)
  have f1: "(if m s1 j > 0 then find_c (m s1 j) g else Some (m s1 j, g)) = Some (cls g (m s1 j), g)"
    using Cons.prems by (intro find_c_cls[OF assms(1)]) simp_all
  have f2: "(if m s2 j > 0 then find_c (m s2 j) g else Some (m s2 j, g)) = Some (cls g (m s2 j), g)"
    using Cons.prems by (intro find_c_cls[OF assms(1)]) simp_all
  have r: "same_transitions_loop js s1 s2 m g =
           Some (map (\<lambda>j. cls g (m s1 j)) js = map (\<lambda>j. cls g (m s2 j)) js, g)"
    using Cons.IH Cons.prems by simp
  show ?case
    by (simp only: same_transitions_loop.simps f1 f2 r Option.bind.simps prod.case list.map list.inject)
       auto
qed

lemma same_transitions_flat:
  assumes "flat_on n g" and "valid_mat m n k"
    and "1 \<le> s1" and "s1 \<le> n" and "1 \<le> s2" and "s2 \<le> n"
  shows "same_transitions s1 s2 m k g = Some (signature m k g s1 = signature m k g s2, g)"
  unfolding same_transitions_def signature_def
  by (rule same_transitions_loop_flat[OF assms(1)]) (use assms in \<open>auto simp: valid_mat_def\<close>)

lemma collect_member_loop:
  assumes "flat_on n g" and "set xs \<subseteq> {1..n}"
  shows "for_each (collect_member rep) xs (member, g, new, unified) =
           Some (member @ filter (\<lambda>i. flat_root g i = rep) xs, g,
                 (\<lambda>x. if x \<in> set (filter (\<lambda>i. flat_root g i = rep) xs) then 0 else new x),
                 (\<lambda>x. if x \<in> set (filter (\<lambda>i. flat_root g i = rep) xs) then False else unified x))"
  using assms(2)
proof (induction xs arbitrary: member new unified)
  case Nil
  then show ?case by simp
next
  case (Cons i xs)
  have fi: "find_c i g = Some (flat_root g i, g)"
    using Cons.prems by (intro find_c_flat_on[OF assms(1)]) simp_all
  have sub: "set xs \<subseteq> {1..n}" using Cons.prems by simp
  show ?case
  proof (cases "flat_root g i = rep")
    case True
    have step: "collect_member rep i (member, g, new, unified) =
                  Some (member @ [i], g, new(i := 0), unified(i := False))"
      using fi True by (simp add: collect_member_def)
    have e1: "(\<lambda>x. if x \<in> set (filter (\<lambda>i. flat_root g i = rep) xs) then 0 else (new(i := 0)) x)
            = (\<lambda>x. if x \<in> set (filter (\<lambda>i. flat_root g i = rep) (i # xs)) then 0 else new x)"
      using True by (auto simp: fun_eq_iff)
    have e2: "(\<lambda>x. if x \<in> set (filter (\<lambda>i. flat_root g i = rep) xs) then False else (unified(i := False)) x)
            = (\<lambda>x. if x \<in> set (filter (\<lambda>i. flat_root g i = rep) (i # xs)) then False else unified x)"
      using True by (auto simp: fun_eq_iff)
    have e3: "(member @ [i]) @ filter (\<lambda>i. flat_root g i = rep) xs
            = member @ filter (\<lambda>i. flat_root g i = rep) (i # xs)"
      using True by simp
    show ?thesis
      unfolding for_each.simps step Option.bind.simps Cons.IH[OF sub] e1 e2 e3 ..
  next
    case False
    have step: "collect_member rep i (member, g, new, unified) = Some (member, g, new, unified)"
      using fi False by (simp add: collect_member_def)
    have e3: "filter (\<lambda>i. flat_root g i = rep) (i # xs) = filter (\<lambda>i. flat_root g i = rep) xs"
      using False by simp
    show ?thesis
      unfolding for_each.simps step Option.bind.simps Cons.IH[OF sub] e3 ..
  qed
qed

lemma partitions_differ_flat:
  assumes "\<forall>x\<in>set ms. (g x > 0 \<longrightarrow> g (g x) \<le> 0) \<and> (new x > 0 \<longrightarrow> new (new x) \<le> 0)"
  shows "partitions_differ ms g new =
           Some (\<exists>x\<in>set ms. flat_root g x \<noteq> flat_root new x, g, new)"
  using assms
proof (induction ms)
  case Nil
  then show ?case by simp
next
  case (Cons x ms)
  have f1: "find_c x g = Some (flat_root g x, g)" using Cons.prems by (intro find_c_flat) simp
  have f2: "find_c x new = Some (flat_root new x, new)" using Cons.prems by (intro find_c_flat) simp
  have r: "partitions_differ ms g new =
           Some (\<exists>x\<in>set ms. flat_root g x \<noteq> flat_root new x, g, new)"
    using Cons.IH Cons.prems by simp
  show ?case
    by (simp only: partitions_differ.simps f1 f2 r Option.bind.simps prod.case) auto
qed

lemma copy_members:
  "fold (\<lambda>state og. og(state := new state)) ms g = (\<lambda>x. if x \<in> set ms then new x else g x)"
  by (induction ms arbitrary: g) (auto simp: fun_eq_iff)

lemma update_partitions_flat:
  assumes "\<forall>x\<in>set ms. (g x > 0 \<longrightarrow> g (g x) \<le> 0) \<and> (new x > 0 \<longrightarrow> new (new x) \<le> 0)"
  shows "update_partitions ms g new =
           Some (\<exists>x\<in>set ms. flat_root g x \<noteq> flat_root new x,
                 (if \<exists>x\<in>set ms. flat_root g x \<noteq> flat_root new x
                  then (\<lambda>x. if x \<in> set ms then new x else g x) else g),
                 new)"
  unfolding update_partitions_def partitions_differ_flat[OF assms]
  by (simp add: copy_members)

subsection \<open>One group of the sweep\<close>

lemma upto_pos: "\<forall>x\<in>set [1..n]. x > 0"
  by simp

lemma canonical_on_cells:
  "canonical_on ms g \<Longrightarrow> \<forall>x\<in>set ms. g x = canon_cell (flat_root g) ms x"
  by (simp add: canonical_on_def)

lemma canonical_flat_on: "canonical_on [1..n] g \<Longrightarrow> flat_on n g"
  unfolding flat_on_def
  using canon_parent[OF upto_pos canonical_on_cells, of n g] by fastforce

lemma klass_all_same:
  assumes "\<forall>y\<in>set C. key y = key x"
  shows "klass key C x = C"
  unfolding klass_def using assms by (simp add: filter_id_conv)

lemma partition_group_canon:
  assumes can: "canonical_on [1..nstates dfa] g"
    and vm: "valid_mat (mat dfa) (nstates dfa) (nab dfa)"
    and rep: "1 \<le> rep" "rep \<le> nstates dfa" and neg: "g rep < 0"
  defines "C \<equiv> klass (flat_root g) [1..nstates dfa] rep"
    and "sig \<equiv> signature (mat dfa) (nab dfa) g"
  shows "\<exists>g' new' unified'.
           partition_group dfa rep (updated, g, new, unified) =
             Some (updated \<or> (\<exists>x\<in>set C. \<exists>y\<in>set C. sig x \<noteq> sig y), g', new', unified')
           \<and> (\<forall>x. g' x = (if x \<in> set C then canon_cell sig C x else g x))
           \<and> (\<not> (\<exists>x\<in>set C. \<exists>y\<in>set C. sig x \<noteq> sig y) \<longrightarrow> (\<forall>x. g' x = g x))"
proof -
  let ?n = "nstates dfa"
  have fl: "flat_on ?n g" using can by (rule canonical_flat_on)
  have cells: "\<forall>x\<in>set [1..?n]. g x = canon_cell (flat_root g) [1..?n] x"
    using can by (rule canonical_on_cells)
  have rr: "flat_root g rep = rep" using neg by (simp add: flat_root_def)
  have Cdef: "C = filter (\<lambda>i. flat_root g i = rep) [1..?n]"
    unfolding C_def klass_def rr ..
  have Csub: "set C \<subseteq> {1..?n}" unfolding Cdef by auto
  have Cdist: "distinct C" unfolding Cdef by simp
  have Cpos: "\<forall>x\<in>set C. x > 0" using Csub by auto
  have Croot: "\<And>x. x \<in> set C \<Longrightarrow> flat_root g x = rep" unfolding Cdef by simp
  let ?new0 = "\<lambda>x. if x \<in> set C then 0 else new x"
  let ?uni0 = "\<lambda>x. if x \<in> set C then False else unified x"
  have coll: "for_each (collect_member rep) [1..?n] ([], g, new, unified) = Some (C, g, ?new0, ?uni0)"
    using collect_member_loop[OF fl, of "[1..?n]" rep "[]" new unified] unfolding Cdef by simp
  have same: "\<And>x y. x \<in> set C \<Longrightarrow> y \<in> set C \<Longrightarrow>
                same_transitions x y (mat dfa) (nab dfa) g = Some (sig x = sig y, g)"
    unfolding sig_def using Csub by (intro same_transitions_flat[OF fl vm]) auto
  have init: "\<forall>x\<in>set C. ?new0 x = 0 \<and> \<not> ?uni0 x" by simp
  from unify_members_canon[of C dfa g sig ?new0 ?uni0, OF same Cdist Cpos init]
  obtain new1 uni1 where
    um: "unify_members dfa C (g, ?new0, ?uni0) = Some (g, new1, uni1)"
    and n1: "\<forall>x\<in>set C. new1 x = canon_cell sig C x" by blast
  have fl1: "\<forall>x\<in>set C. (g x > 0 \<longrightarrow> g (g x) \<le> 0) \<and> (new1 x > 0 \<longrightarrow> new1 (new1 x) \<le> 0)"
  proof
    fix x assume x: "x \<in> set C"
    then have "x \<in> {1..?n}" using Csub by blast
    then have a: "g x > 0 \<longrightarrow> g (g x) \<le> 0" using fl by (simp add: flat_on_def)
    have b: "new1 x > 0 \<longrightarrow> new1 (new1 x) \<le> 0"
      using canon_parent[OF Cpos n1 x] by fastforce
    from a b show "(g x > 0 \<longrightarrow> g (g x) \<le> 0) \<and> (new1 x > 0 \<longrightarrow> new1 (new1 x) \<le> 0)" ..
  qed
  let ?differ = "\<exists>x\<in>set C. flat_root g x \<noteq> flat_root new1 x"
  let ?split = "\<exists>x\<in>set C. \<exists>y\<in>set C. sig x \<noteq> sig y"
  let ?g' = "\<lambda>x. if x \<in> set C then canon_cell sig C x else g x"
  have up: "update_partitions C g new1 =
              Some (?differ, (if ?differ then (\<lambda>x. if x \<in> set C then new1 x else g x) else g), new1)"
    using fl1 by (rule update_partitions_flat)
  have gC: "\<And>x. x \<in> set C \<Longrightarrow> g x = star_cell C x"
  proof -
    fix x assume x: "x \<in> set C"
    then have xs: "x \<in> set [1..?n]" using Csub by auto
    have "klass (flat_root g) [1..?n] x = C"
      unfolding C_def using Croot[OF x] rr by (intro klass_same) simp
    then show "g x = star_cell C x" using cells xs by (simp add: canon_cell_def)
  qed
  have d_iff: "?differ \<longleftrightarrow> ?split"
  proof
    assume ?differ
    then obtain x where x: "x \<in> set C" and ne: "flat_root g x \<noteq> flat_root new1 x" by blast
    show ?split
    proof (rule ccontr)
      assume "\<not> ?split"
      then have "\<forall>y\<in>set C. sig y = sig x" using x by blast
      then have "klass sig C x = C" by (rule klass_all_same)
      then have "new1 x = star_cell C x" using n1 x by (simp add: canon_cell_def)
      then have "new1 x = g x" using gC[OF x] by simp
      then have "flat_root g x = flat_root new1 x" by (simp add: flat_root_def)
      with ne show False by simp
    qed
  next
    assume ?split
    then obtain x y where x: "x \<in> set C" and y: "y \<in> set C" and ne: "sig x \<noteq> sig y" by blast
    have "flat_root new1 x \<noteq> flat_root new1 y"
      using canon_root_iff[OF Cpos n1 x y] ne by simp
    then have "flat_root new1 x \<noteq> rep \<or> flat_root new1 y \<noteq> rep" by auto
    then show ?differ using Croot[OF x] Croot[OF y] x y by metis
  qed
  have g'_eq: "(if ?differ then (\<lambda>x. if x \<in> set C then new1 x else g x) else g) = ?g'"
  proof (cases ?differ)
    case True
    have e: "(\<lambda>x. if x \<in> set C then new1 x else g x) = ?g'"
    proof
      fix x
      show "(if x \<in> set C then new1 x else g x) = (if x \<in> set C then canon_cell sig C x else g x)"
      proof (cases "x \<in> set C")
        case True
        then have "new1 x = canon_cell sig C x" using n1 by blast
        with True show ?thesis by simp
      next
        case False
        then show ?thesis by simp
      qed
    qed
    show ?thesis by (subst if_P[OF True]) (rule e)
  next
    case False
    then have ns: "\<not> ?split" using d_iff by blast
    have "\<And>x. x \<in> set C \<Longrightarrow> canon_cell sig C x = g x"
    proof -
      fix x assume x: "x \<in> set C"
      from ns x have "\<forall>y\<in>set C. sig y = sig x" by blast
      then have "klass sig C x = C" by (rule klass_all_same)
      then show "canon_cell sig C x = g x" using gC[OF x] by (simp add: canon_cell_def)
    qed
    then have e: "g = ?g'" by (auto simp: fun_eq_iff)
    show ?thesis by (subst if_not_P[OF False]) (rule e)
  qed
  have up': "update_partitions C g new1 = Some (?split, ?g', new1)"
    using up d_iff g'_eq by (simp only:)
  have ng: "\<not> g rep \<ge> 0" using neg by simp
  have "partition_group dfa rep (updated, g, new, unified) =
          Some (if ?split then True else updated, ?g', new1, uni1)"
    unfolding partition_group_def using ng coll um up' by simp
  moreover have "(if ?split then True else updated) = (updated \<or> ?split)"
    by (rule if_split[THEN iffD2]) blast
  ultimately have pg: "partition_group dfa rep (updated, g, new, unified) =
          Some (updated \<or> ?split, ?g', new1, uni1)" by (simp only:)
  have pw: "\<forall>x. ?g' x = (if x \<in> set C then canon_cell sig C x else g x)" by simp
  have same_g: "\<not> ?split \<longrightarrow> (\<forall>x. ?g' x = g x)"
  proof (intro impI allI)
    fix x assume ns: "\<not> ?split"
    show "?g' x = g x"
    proof (cases "x \<in> set C")
      case True
      from ns True have "\<forall>y\<in>set C. sig y = sig x" by blast
      then have "klass sig C x = C" by (rule klass_all_same)
      then have "canon_cell sig C x = g x" using gC[OF True] by (simp add: canon_cell_def)
      with True show ?thesis by simp
    next
      case False
      then show ?thesis by simp
    qed
  qed
  from pg pw same_g show ?thesis by blast
qed

subsection \<open>Counting classes\<close>

lemma roots_are_images:
  assumes cells: "\<forall>x\<in>set [1..n]. g x = canon_cell key [1..n] x"
  shows "{r. 1 \<le> r \<and> r \<le> n \<and> g r \<le> 0} = flat_root g ` {1..n}"
proof (intro set_eqI iffI)
  fix r assume "r \<in> {r. 1 \<le> r \<and> r \<le> n \<and> g r \<le> 0}"
  then have "r \<in> {1..n}" and "flat_root g r = r" by (auto simp: flat_root_def)
  then show "r \<in> flat_root g ` {1..n}" by (metis image_eqI)
next
  fix r assume "r \<in> flat_root g ` {1..n}"
  then obtain x where x: "x \<in> set [1..n]" and r: "r = flat_root g x" by auto
  from canon_root[OF upto_pos cells x] r
  show "r \<in> {r. 1 \<le> r \<and> r \<le> n \<and> g r \<le> 0}" by simp
qed

lemma class_count_keys:
  assumes cells: "\<forall>x\<in>set [1..n]. g x = canon_cell key [1..n] x"
  shows "class_count n g = card (key ` {1..n})"
proof -
  let ?R = "flat_root g ` {1..n}"
  have R: "{r. 1 \<le> r \<and> r \<le> n \<and> g r \<le> 0} = ?R" using cells by (rule roots_are_images)
  have rootR: "\<And>r. r \<in> ?R \<Longrightarrow> r \<in> set [1..n] \<and> flat_root g r = r"
  proof -
    fix r assume "r \<in> ?R"
    then have "r \<in> {r. 1 \<le> r \<and> r \<le> n \<and> g r \<le> 0}" using R by simp
    then show "r \<in> set [1..n] \<and> flat_root g r = r" by (auto simp: flat_root_def)
  qed
  have inj: "inj_on key ?R"
  proof (rule inj_onI)
    fix a b assume a: "a \<in> ?R" and b: "b \<in> ?R" and k: "key a = key b"
    from canon_same_root[OF upto_pos cells _ _ k] rootR[OF a] rootR[OF b]
    show "a = b" by metis
  qed
  have img: "key ` ?R = key ` {1..n}"
  proof (intro set_eqI iffI)
    fix k assume "k \<in> key ` ?R"
    then obtain r where r: "r \<in> ?R" and k: "k = key r" by blast
    from rootR[OF r] have "r \<in> {1..n}" by simp
    with k show "k \<in> key ` {1..n}" by blast
  next
    fix k assume "k \<in> key ` {1..n}"
    then obtain x where x: "x \<in> set [1..n]" and k: "k = key x" by auto
    from canon_root[OF upto_pos cells x] have "key (flat_root g x) = key x" by simp
    moreover have "flat_root g x \<in> ?R" using x by simp
    ultimately show "k \<in> key ` ?R" using k by (metis image_eqI)
  qed
  have "class_count n g = card ?R" unfolding class_count_def R ..
  also have "\<dots> = card (key ` ?R)" using inj by (simp add: card_image)
  finally show ?thesis using img by simp
qed

lemma class_count_le: "class_count n g \<le> nat n"
proof -
  have "{r. 1 \<le> r \<and> r \<le> n \<and> g r \<le> 0} \<subseteq> {1..n}" by auto
  then have "card {r. 1 \<le> r \<and> r \<le> n \<and> g r \<le> 0} \<le> card {1..n}"
    by (intro card_mono) simp_all
  then show ?thesis by (simp add: class_count_def)
qed

subsection \<open>Splitting one class keeps the vector canonical\<close>

lemma split_class_cells:
  fixes sig :: "state_t \<Rightarrow> state_t list"
  assumes cells: "\<forall>x\<in>set [1..n]. g x = canon_cell (flat_root g) [1..n] x"
    and C: "C = filter (\<lambda>i. flat_root g i = rep) [1..n]"
    and g': "\<forall>x. g' x = (if x \<in> set C then canon_cell sig C x else g x)"
  shows "\<forall>x\<in>set [1..n]. g' x =
           canon_cell (\<lambda>x. (flat_root g x, if x \<in> set C then sig x else [])) [1..n] x"
proof
  fix x assume x: "x \<in> set [1..n]"
  let ?key = "\<lambda>x. (flat_root g x, if x \<in> set C then sig x else [])"
  have inC: "\<And>y. y \<in> set [1..n] \<Longrightarrow> y \<in> set C \<longleftrightarrow> flat_root g y = rep"
    unfolding C by simp
  show "g' x = canon_cell ?key [1..n] x"
  proof (cases "x \<in> set C")
    case True
    then have rx: "flat_root g x = rep" using inC[OF x] by simp
    have "klass sig C x = filter (\<lambda>y. flat_root g y = rep \<and> sig y = sig x) [1..n]"
      unfolding klass_def C by (simp add: conj_commute)
    also have "\<dots> = filter (\<lambda>y. ?key y = ?key x) [1..n]"
    proof (rule filter_cong[OF refl])
      fix y assume y: "y \<in> set [1..n]"
      show "(flat_root g y = rep \<and> sig y = sig x) = (?key y = ?key x)"
        using inC[OF y] True rx by auto
    qed
    finally have "klass sig C x = klass ?key [1..n] x" by (simp add: klass_def)
    then have "canon_cell sig C x = canon_cell ?key [1..n] x" by (simp add: canon_cell_def)
    moreover have "g' x = canon_cell sig C x" using g' True by simp
    ultimately show ?thesis by simp
  next
    case False
    then have rx: "flat_root g x \<noteq> rep" using inC[OF x] by simp
    have "klass (flat_root g) [1..n] x = klass ?key [1..n] x"
      unfolding klass_def
    proof (rule filter_cong[OF refl])
      fix y assume y: "y \<in> set [1..n]"
      show "(flat_root g y = flat_root g x) = (?key y = ?key x)"
        using inC[OF y] False rx by auto
    qed
    then have "canon_cell (flat_root g) [1..n] x = canon_cell ?key [1..n] x"
      by (simp add: canon_cell_def)
    moreover have "g' x = g x" using g' False by simp
    moreover have "g x = canon_cell (flat_root g) [1..n] x" using cells x by blast
    ultimately show ?thesis by simp
  qed
qed

lemma class_count_cong: "\<forall>x. g' x = g x \<Longrightarrow> class_count n g' = class_count n g"
  by (simp add: class_count_def)

lemma refines_refl: "refines n g g"
  by (simp add: refines_def)

lemma refines_trans: "refines n g g1 \<Longrightarrow> refines n g1 g2 \<Longrightarrow> refines n g g2"
  unfolding refines_def by blast

lemma card_image_less_if_not_inj:
  assumes "finite A" and "a \<in> A" and "b \<in> A" and "a \<noteq> b" and "f a = f b"
  shows "card (f ` A) < card A"
proof -
  have "\<not> inj_on f A" using assms by (auto simp: inj_on_def)
  then have "card (f ` A) \<noteq> card A" using assms(1) eq_card_imp_inj_on by blast
  moreover have "card (f ` A) \<le> card A" using assms(1) by (rule card_image_le)
  ultimately show ?thesis by simp
qed

lemma partition_group_step:
  assumes can: "canonical_on [1..nstates dfa] g"
    and vm: "valid_mat (mat dfa) (nstates dfa) (nab dfa)"
    and rep: "1 \<le> rep" "rep \<le> nstates dfa"
  shows "\<exists>upd' g' new' uni'.
           partition_group dfa rep (updated, g, new, unified) = Some (upd', g', new', uni')
           \<and> canonical_on [1..nstates dfa] g'
           \<and> refines (nstates dfa) g g'
           \<and> class_count (nstates dfa) g \<le> class_count (nstates dfa) g'
           \<and> (upd' \<longleftrightarrow> updated \<or> class_count (nstates dfa) g < class_count (nstates dfa) g')
           \<and> (class_count (nstates dfa) g' = class_count (nstates dfa) g \<longrightarrow>
                  (\<forall>x. g' x = g x) \<and> group_stable dfa g rep)"
proof (cases "g rep \<ge> 0")
  case True
  let ?n = "nstates dfa"
  have cells: "\<forall>x\<in>set [1..?n]. g x = canon_cell (flat_root g) [1..?n] x"
    using can by (rule canonical_on_cells)
  have pg: "partition_group dfa rep (updated, g, new, unified) = Some (updated, g, new, unified)"
    using True by (simp add: partition_group_def)
  have gs: "group_stable dfa g rep"
    unfolding group_stable_def
  proof (intro ballI impI)
    fix x y assume x: "x \<in> {1..?n}" and y: "y \<in> {1..?n}"
      and rx: "flat_root g x = rep" and ry: "flat_root g y = rep"
    have "\<And>z. z \<in> {1..?n} \<Longrightarrow> flat_root g z = rep \<Longrightarrow> z = rep"
    proof -
      fix z assume z: "z \<in> {1..?n}" and rz: "flat_root g z = rep"
      show "z = rep"
      proof (cases "g z > 0")
        case True
        have zs: "z \<in> set [1..?n]" using z by simp
        from canon_parent[OF upto_pos cells zs True] have "g (g z) < 0" by simp
        moreover have "g z = rep" using rz True by (simp add: flat_root_def)
        ultimately show ?thesis using \<open>g rep \<ge> 0\<close> by simp
      next
        case False
        then show ?thesis using rz by (simp add: flat_root_def)
      qed
    qed
    from this[OF x rx] this[OF y ry] have "x = y" by simp
    then show "signature (mat dfa) (nab dfa) g x = signature (mat dfa) (nab dfa) g y" by simp
  qed
  from pg can gs refines_refl[of ?n g] show ?thesis by auto
next
  case False
  let ?n = "nstates dfa"
  let ?S = "{1..?n}"
  let ?C = "klass (flat_root g) [1..?n] rep"
  let ?sig = "signature (mat dfa) (nab dfa) g"
  let ?split = "\<exists>x\<in>set ?C. \<exists>y\<in>set ?C. ?sig x \<noteq> ?sig y"
  let ?key = "\<lambda>x. (flat_root g x, if x \<in> set ?C then ?sig x else [])"
  from False have neg: "g rep < 0" by simp
  have rr: "flat_root g rep = rep" using neg by (simp add: flat_root_def)
  have cells: "\<forall>x\<in>set [1..?n]. g x = canon_cell (flat_root g) [1..?n] x"
    using can by (rule canonical_on_cells)
  from partition_group_canon[OF can vm rep neg, of updated new unified]
  obtain g' new' uni' where
    pg: "partition_group dfa rep (updated, g, new, unified) = Some (updated \<or> ?split, g', new', uni')"
    and pw: "\<forall>x. g' x = (if x \<in> set ?C then canon_cell ?sig ?C x else g x)"
    and same: "\<not> ?split \<longrightarrow> (\<forall>x. g' x = g x)" by blast
  have Cdef: "?C = filter (\<lambda>i. flat_root g i = rep) [1..?n]"
    unfolding klass_def rr ..
  have inC: "\<And>y. y \<in> ?S \<Longrightarrow> y \<in> set ?C \<longleftrightarrow> flat_root g y = rep"
    unfolding Cdef by simp
  have cells': "\<forall>x\<in>set [1..?n]. g' x = canon_cell ?key [1..?n] x"
    using cells Cdef pw by (rule split_class_cells)
  have can': "canonical_on [1..?n] g'" using upto_pos cells' by (rule canonical_onI)
  have roots': "\<And>x y. x \<in> ?S \<Longrightarrow> y \<in> ?S \<Longrightarrow>
                  flat_root g' x = flat_root g' y \<longleftrightarrow> ?key x = ?key y"
  proof -
    fix x y assume "x \<in> ?S" "y \<in> ?S"
    then have x: "x \<in> set [1..?n]" and y: "y \<in> set [1..?n]" by simp_all
    show "flat_root g' x = flat_root g' y \<longleftrightarrow> ?key x = ?key y"
      using upto_pos cells' x y by (rule canon_root_iff)
  qed
  have ref: "refines ?n g g'"
    unfolding refines_def
  proof (intro ballI impI)
    fix x y assume x: "x \<in> ?S" and y: "y \<in> ?S" and e: "flat_root g' x = flat_root g' y"
    then have "?key x = ?key y" using roots'[OF x y] by blast
    then show "flat_root g x = flat_root g y" by (rule Pair_inject)
  qed
  have cnt: "class_count ?n g = card (flat_root g ` ?S)" using cells by (rule class_count_keys)
  have cnt': "class_count ?n g' = card (?key ` ?S)" using cells' by (rule class_count_keys)
  have fstimg: "flat_root g ` ?S = fst ` (?key ` ?S)" by (simp add: image_image)
  have le: "class_count ?n g \<le> class_count ?n g'"
    unfolding cnt cnt' fstimg by (rule card_image_le) simp
  have lt: "?split \<Longrightarrow> class_count ?n g < class_count ?n g'"
  proof -
    assume ?split
    then obtain x y where x: "x \<in> set ?C" and y: "y \<in> set ?C" and ne: "?sig x \<noteq> ?sig y"
      by blast
    have xs: "x \<in> ?S" and ys: "y \<in> ?S" using x y unfolding Cdef by auto
    have kx: "?key x = (rep, ?sig x)" using inC[OF xs] x by simp
    have ky: "?key y = (rep, ?sig y)" using inC[OF ys] y by simp
    have a: "?key x \<in> ?key ` ?S" using xs by (rule imageI)
    have b: "?key y \<in> ?key ` ?S" using ys by (rule imageI)
    have ne': "?key x \<noteq> ?key y" unfolding kx ky using ne by simp
    have ff: "fst (?key x) = fst (?key y)" unfolding kx ky by simp
    have "card (fst ` (?key ` ?S)) < card (?key ` ?S)"
      by (rule card_image_less_if_not_inj[OF _ a b ne' ff]) simp
    then show "class_count ?n g < class_count ?n g'" unfolding cnt cnt' fstimg .
  qed
  have eq: "\<not> ?split \<Longrightarrow> class_count ?n g' = class_count ?n g"
    using same by (intro class_count_cong) blast
  have upd: "(updated \<or> ?split) \<longleftrightarrow> updated \<or> class_count ?n g < class_count ?n g'"
  proof (cases ?split)
    case True
    from lt[OF True] True show ?thesis by blast
  next
    case False
    have "\<not> class_count ?n g < class_count ?n g'" using eq[OF False] by linarith
    with False show ?thesis by blast
  qed
  have fixp: "class_count ?n g' = class_count ?n g \<longrightarrow> (\<forall>x. g' x = g x) \<and> group_stable dfa g rep"
  proof
    assume ceq: "class_count ?n g' = class_count ?n g"
    have ns: "\<not> ?split"
    proof
      assume ?split
      from lt[OF this] ceq show False by linarith
    qed
    have "group_stable dfa g rep"
      unfolding group_stable_def
    proof (intro ballI impI)
      fix x y assume x: "x \<in> ?S" and y: "y \<in> ?S"
        and rx: "flat_root g x = rep" and ry: "flat_root g y = rep"
      have "x \<in> set ?C" "y \<in> set ?C" using inC[OF x] inC[OF y] rx ry by simp_all
      with ns show "?sig x = ?sig y" by blast
    qed
    with ns same show "(\<forall>x. g' x = g x) \<and> group_stable dfa g rep" by blast
  qed
  from pg can' ref le upd fixp show ?thesis by blast
qed

subsection \<open>One sweep\<close>

lemma partition_sweep:
  assumes vm: "valid_mat (mat dfa) (nstates dfa) (nab dfa)"
  shows "canonical_on [1..nstates dfa] g \<Longrightarrow> set reps \<subseteq> {1..nstates dfa} \<Longrightarrow>
         \<exists>upd' g' new' uni'.
           for_each (partition_group dfa) reps (updated, g, new, unified) = Some (upd', g', new', uni')
           \<and> canonical_on [1..nstates dfa] g'
           \<and> refines (nstates dfa) g g'
           \<and> class_count (nstates dfa) g \<le> class_count (nstates dfa) g'
           \<and> (upd' \<longleftrightarrow> updated \<or> class_count (nstates dfa) g < class_count (nstates dfa) g')
           \<and> (class_count (nstates dfa) g' = class_count (nstates dfa) g \<longrightarrow>
                  (\<forall>x. g' x = g x) \<and> (\<forall>r\<in>set reps. group_stable dfa g r))"
proof (induction reps arbitrary: updated g new unified)
  case Nil
  then show ?case using refines_refl[of "nstates dfa" g] by simp
next
  case (Cons rep reps)
  let ?n = "nstates dfa"
  have rep: "1 \<le> rep" "rep \<le> ?n" using Cons.prems(2) by simp_all
  have sub: "set reps \<subseteq> {1..?n}" using Cons.prems(2) by simp
  from partition_group_step[OF Cons.prems(1) vm rep, of updated new unified]
  obtain u1 g1 n1 un1 where
    s1: "partition_group dfa rep (updated, g, new, unified) = Some (u1, g1, n1, un1)"
    and c1: "canonical_on [1..?n] g1"
    and r1: "refines ?n g g1"
    and l1: "class_count ?n g \<le> class_count ?n g1"
    and up1: "u1 \<longleftrightarrow> updated \<or> class_count ?n g < class_count ?n g1"
    and f1: "class_count ?n g1 = class_count ?n g \<longrightarrow> (\<forall>x. g1 x = g x) \<and> group_stable dfa g rep"
    by blast
  from Cons.IH[OF c1 sub, of u1 n1 un1]
  obtain u2 g2 n2 un2 where
    s2: "for_each (partition_group dfa) reps (u1, g1, n1, un1) = Some (u2, g2, n2, un2)"
    and c2: "canonical_on [1..?n] g2"
    and r2: "refines ?n g1 g2"
    and l2: "class_count ?n g1 \<le> class_count ?n g2"
    and up2: "u2 \<longleftrightarrow> u1 \<or> class_count ?n g1 < class_count ?n g2"
    and f2: "class_count ?n g2 = class_count ?n g1 \<longrightarrow>
               (\<forall>x. g2 x = g1 x) \<and> (\<forall>r\<in>set reps. group_stable dfa g1 r)"
    by blast
  have run: "for_each (partition_group dfa) (rep # reps) (updated, g, new, unified)
               = Some (u2, g2, n2, un2)"
    using s1 s2 by simp
  have ref: "refines ?n g g2" using r1 r2 by (rule refines_trans)
  have le: "class_count ?n g \<le> class_count ?n g2" using l1 l2 by (rule order_trans)
  have upd: "u2 \<longleftrightarrow> updated \<or> class_count ?n g < class_count ?n g2"
  proof -
    have "(class_count ?n g < class_count ?n g1 \<or> class_count ?n g1 < class_count ?n g2)
            \<longleftrightarrow> class_count ?n g < class_count ?n g2"
      using l1 l2 by linarith
    with up1 up2 show ?thesis by blast
  qed
  have fixp: "class_count ?n g2 = class_count ?n g \<longrightarrow>
               (\<forall>x. g2 x = g x) \<and> (\<forall>r\<in>set (rep # reps). group_stable dfa g r)"
  proof
    assume e: "class_count ?n g2 = class_count ?n g"
    have e1: "class_count ?n g1 = class_count ?n g" using e l1 l2 by linarith
    have e2: "class_count ?n g2 = class_count ?n g1" using e l1 l2 by linarith
    from f1 e1 have a: "\<forall>x. g1 x = g x" and b: "group_stable dfa g rep" by blast+
    from f2 e2 have c: "\<forall>x. g2 x = g1 x" and d: "\<forall>r\<in>set reps. group_stable dfa g1 r" by blast+
    from a have "g1 = g" by (intro ext) blast
    with d have d': "\<forall>r\<in>set reps. group_stable dfa g r" by simp
    have "\<forall>x. g2 x = g x" using a c by simp
    moreover have "\<forall>r\<in>set (rep # reps). group_stable dfa g r" using b d' by simp
    ultimately show "(\<forall>x. g2 x = g x) \<and> (\<forall>r\<in>set (rep # reps). group_stable dfa g r)" ..
  qed
  from run c2 ref le upd fixp show ?case by blast
qed

lemma partition_c_canonical:
  assumes can: "canonical_on [1..nstates dfa] g"
    and vm: "valid_mat (mat dfa) (nstates dfa) (nab dfa)"
  shows "\<exists>upd g'. partition_c dfa g = Some (upd, g')
           \<and> canonical_on [1..nstates dfa] g'
           \<and> refines (nstates dfa) g g'
           \<and> class_count (nstates dfa) g \<le> class_count (nstates dfa) g'
           \<and> (upd \<longleftrightarrow> class_count (nstates dfa) g < class_count (nstates dfa) g')
           \<and> (\<not> upd \<longrightarrow> g' = g \<and> stable dfa g)"
proof -
  let ?n = "nstates dfa"
  have sub: "set [1..?n] \<subseteq> {1..?n}" by simp
  from partition_sweep[OF vm can sub, of False undefined undefined]
  obtain upd g' new' uni' where
    run: "for_each (partition_group dfa) [1..?n] (False, g, undefined, undefined)
            = Some (upd, g', new', uni')"
    and c: "canonical_on [1..?n] g'"
    and r: "refines ?n g g'"
    and l: "class_count ?n g \<le> class_count ?n g'"
    and u: "upd \<longleftrightarrow> False \<or> class_count ?n g < class_count ?n g'"
    and f: "class_count ?n g' = class_count ?n g \<longrightarrow>
               (\<forall>x. g' x = g x) \<and> (\<forall>r\<in>set [1..?n]. group_stable dfa g r)"
    by blast
  have pc: "partition_c dfa g = Some (upd, g')"
    using run by (simp add: partition_c_def)
  have u': "upd \<longleftrightarrow> class_count ?n g < class_count ?n g'" using u by simp
  have cells: "\<forall>x\<in>set [1..?n]. g x = canon_cell (flat_root g) [1..?n] x"
    using can by (rule canonical_on_cells)
  have fixp: "\<not> upd \<longrightarrow> g' = g \<and> stable dfa g"
  proof
    assume "\<not> upd"
    then have "class_count ?n g' = class_count ?n g" using u' l by linarith
    with f have a: "\<forall>x. g' x = g x" and b: "\<forall>r\<in>set [1..?n]. group_stable dfa g r" by blast+
    from a have "g' = g" by (intro ext) blast
    moreover have "stable dfa g"
      unfolding stable_def
    proof (intro ballI impI)
      fix x y assume x: "x \<in> {1..?n}" and y: "y \<in> {1..?n}"
        and e: "flat_root g x = flat_root g y"
      have xs: "x \<in> set [1..?n]" using x by simp
      from canon_root[OF upto_pos cells xs] have "flat_root g x \<in> set [1..?n]" by simp
      with b have "group_stable dfa g (flat_root g x)" by blast
      then show "signature (mat dfa) (nab dfa) g x = signature (mat dfa) (nab dfa) g y"
        unfolding group_stable_def using x y e by metis
    qed
    ultimately show "g' = g \<and> stable dfa g" ..
  qed
  from pc c r l u' fixp show ?thesis by blast
qed

subsection \<open>The initial partition\<close>

lemma klass_append_other:
  "key x \<noteq> key i \<Longrightarrow> klass key (P @ [i]) x = klass key P x"
  by (auto simp: klass_def)

lemma klass_append_same:
  "key x = key i \<Longrightarrow> klass key (P @ [i]) x = klass key P i @ [i]"
  by (simp add: klass_def)

lemma append_to_class:
  fixes key :: "state_t \<Rightarrow> 'k"
  assumes dist: "distinct (P @ [i])" and pos: "\<forall>x\<in>set (P @ [i]). x > 0"
    and cells: "\<forall>x\<in>set P. g x = canon_cell key P x" and gi: "g i = 0"
    and r: "r = first_of (klass key P i)"
  shows "\<exists>g1. (if r = 0 then Some g else Union_c r i g) = Some g1
           \<and> (\<forall>x\<in>set (P @ [i]). g1 x = canon_cell key (P @ [i]) x)
           \<and> (\<forall>x. x \<notin> set (P @ [i]) \<longrightarrow> g1 x = g x)
           \<and> first_of (klass key (P @ [i]) i) = (if r = 0 then i else r)"
proof (cases "klass key P i")
  case Nil
  then have r0: "r = 0" using r by (simp add: first_of_def)
  have none: "\<And>x. x \<in> set P \<Longrightarrow> key x \<noteq> key i"
  proof
    fix x assume "x \<in> set P" and "key x = key i"
    then have "x \<in> set (klass key P i)" by (simp add: klass_def)
    with Nil show False by simp
  qed
  have Ki: "klass key (P @ [i]) i = [i]" using klass_append_same[of key i i P] Nil by simp
  have c: "\<forall>x\<in>set (P @ [i]). g x = canon_cell key (P @ [i]) x"
  proof
    fix x assume x: "x \<in> set (P @ [i])"
    show "g x = canon_cell key (P @ [i]) x"
    proof (cases "x = i")
      case True
      then show ?thesis using Ki gi by (simp add: canon_cell_def star_cell_def)
    next
      case False
      then have xp: "x \<in> set P" using x by simp
      have "klass key (P @ [i]) x = klass key P x"
        using none[OF xp] by (rule klass_append_other)
      then have "canon_cell key (P @ [i]) x = canon_cell key P x" by (simp add: canon_cell_def)
      then show ?thesis using cells xp by simp
    qed
  qed
  have "first_of (klass key (P @ [i]) i) = i" using Ki by (simp add: first_of_def)
  with r0 c show ?thesis by simp
next
  case (Cons a F')
  then have ra: "r = a" using r by (simp add: first_of_def)
  have aK: "a \<in> set (klass key P i)" using Cons by simp
  then have "a \<in> set P" by (simp add: klass_def)
  then have "a > 0" using pos by simp
  then have rn: "r \<noteq> 0" using ra by simp
  let ?F = "a # F'"
  have Fsub: "\<And>x. x \<in> set ?F \<Longrightarrow> x \<in> set P \<and> key x = key i"
    using Cons klass_subset[of _ key P i] by simp
  have dF: "distinct ?F" using Cons dist by (metis distinct_append distinct_filter klass_def)
  have pF: "\<forall>x\<in>set ?F. x > 0" using Fsub pos by auto
  have iF: "i \<notin> set ?F" using Fsub dist by auto
  have cF: "\<forall>x\<in>set ?F. g x = star_cell ?F x"
  proof
    fix x assume x: "x \<in> set ?F"
    have "klass key P x = klass key P i" using Fsub[OF x] by (intro klass_same) simp
    then have "canon_cell key P x = star_cell ?F x" using Cons by (simp add: canon_cell_def)
    then show "g x = star_cell ?F x" using cells Fsub[OF x] by simp
  qed
  let ?g1 = "\<lambda>x. if x \<in> set (a # F' @ [i]) then star_cell (a # F' @ [i]) x else g x"
  have U: "Union_c a i g = Some ?g1"
    using dF pF iF cF gi by (rule Union_c_append)
  have Ki: "\<And>x. key x = key i \<Longrightarrow> klass key (P @ [i]) x = a # F' @ [i]"
    using klass_append_same[of key _ i P] Cons by simp
  have c: "\<forall>x\<in>set (P @ [i]). ?g1 x = canon_cell key (P @ [i]) x"
  proof
    fix x assume x: "x \<in> set (P @ [i])"
    show "?g1 x = canon_cell key (P @ [i]) x"
    proof (cases "key x = key i")
      case True
      have "x \<in> set (klass key (P @ [i]) x)" using x by (rule klass_mem)
      then have "x \<in> set (a # F' @ [i])" using Ki[OF True] by simp
      then show ?thesis using Ki[OF True] by (simp add: canon_cell_def)
    next
      case False
      then have "x \<noteq> i" by auto
      then have xp: "x \<in> set P" using x by simp
      have "x \<notin> set (a # F' @ [i])" using False Fsub \<open>x \<noteq> i\<close> by auto
      then have "?g1 x = g x" by simp
      moreover have "klass key (P @ [i]) x = klass key P x"
        using False by (rule klass_append_other)
      then have "canon_cell key (P @ [i]) x = canon_cell key P x" by (simp add: canon_cell_def)
      ultimately show ?thesis using cells xp by simp
    qed
  qed
  have out: "\<forall>x. x \<notin> set (P @ [i]) \<longrightarrow> ?g1 x = g x"
    using Fsub by auto
  have "first_of (klass key (P @ [i]) i) = a" using Ki[of i] by (simp add: first_of_def)
  with ra rn U c out show ?thesis by simp
qed

lemma init_partitions_loop:
  assumes "distinct (P @ rest)" and "\<forall>x\<in>set (P @ rest). x > 0"
    and "\<forall>x\<in>set P. g x = canon_cell (\<lambda>x. attribs x = CHR ''A'') P x"
    and "\<forall>x\<in>set rest. g x = 0"
    and "ar = first_of (filter (\<lambda>y. attribs y = CHR ''A'') P)"
    and "orr = first_of (filter (\<lambda>y. attribs y \<noteq> CHR ''A'') P)"
  shows "\<exists>ar' or' g'. for_each (init_partitions_step attribs) rest (ar, orr, g) = Some (ar', or', g')
           \<and> (\<forall>x\<in>set (P @ rest). g' x = canon_cell (\<lambda>x. attribs x = CHR ''A'') (P @ rest) x)
           \<and> (\<forall>x. x \<notin> set (P @ rest) \<longrightarrow> g' x = g x)"
  using assms
proof (induction rest arbitrary: P ar orr g)
  case Nil
  then show ?case by simp
next
  case (Cons i rest)
  let ?key = "\<lambda>x. attribs x = CHR ''A''"
  have d0: "distinct (P @ [i])" and p0: "\<forall>x\<in>set (P @ [i]). x > 0"
    using Cons.prems(1,2) by auto
  have gi: "g i = 0" using Cons.prems(4) by simp
  have d1: "distinct ((P @ [i]) @ rest)" using Cons.prems(1) by simp
  have p1: "\<forall>x\<in>set ((P @ [i]) @ rest). x > 0" using Cons.prems(2) by simp
  have M: "(P @ [i]) @ rest = P @ i # rest" by simp
  obtain r where r: "r = first_of (klass ?key P i)" by blast
  from append_to_class[OF d0 p0 Cons.prems(3) gi r]
  obtain g1 where
    u: "(if r = 0 then Some g else Union_c r i g) = Some g1"
    and c1: "\<forall>x\<in>set (P @ [i]). g1 x = canon_cell ?key (P @ [i]) x"
    and o1: "\<forall>x. x \<notin> set (P @ [i]) \<longrightarrow> g1 x = g x"
    and f1: "first_of (klass ?key (P @ [i]) i) = (if r = 0 then i else r)" by blast
  have z1: "\<forall>x\<in>set rest. g1 x = 0"
  proof
    fix x assume x: "x \<in> set rest"
    then have "x \<notin> set (P @ [i])" using Cons.prems(1) by auto
    then have "g1 x = g x" using o1 by blast
    then show "g1 x = 0" using Cons.prems(4) x by simp
  qed
  show ?case
  proof (cases "attribs i = CHR ''A''")
    case True
    have kl: "\<And>Q. klass ?key Q i = filter (\<lambda>y. attribs y = CHR ''A'') Q"
      unfolding klass_def using True by simp
    have ra: "r = ar" using r Cons.prems(5) kl by simp
    let ?ar1 = "if ar = 0 then i else ar"
    have step: "init_partitions_step attribs i (ar, orr, g) = Some (?ar1, orr, g1)"
      using True u ra by (auto simp: init_partitions_step_def)
    have a1: "?ar1 = first_of (filter (\<lambda>y. attribs y = CHR ''A'') (P @ [i]))"
      using f1 ra kl by simp
    have o2: "orr = first_of (filter (\<lambda>y. attribs y \<noteq> CHR ''A'') (P @ [i]))"
      using Cons.prems(6) True by simp
    from Cons.IH[OF d1 p1 c1 z1 a1 o2] obtain ar' or' g' where
      run: "for_each (init_partitions_step attribs) rest (?ar1, orr, g1) = Some (ar', or', g')"
      and c: "\<forall>x\<in>set (P @ i # rest). g' x = canon_cell ?key (P @ i # rest) x"
      and o: "\<forall>x. x \<notin> set (P @ i # rest) \<longrightarrow> g' x = g1 x"
      unfolding M by blast
    have "for_each (init_partitions_step attribs) (i # rest) (ar, orr, g) = Some (ar', or', g')"
      using step run by simp
    moreover have "\<forall>x. x \<notin> set (P @ i # rest) \<longrightarrow> g' x = g x"
      using o o1 by auto
    ultimately show ?thesis using c by blast
  next
    case False
    have kl: "\<And>Q. klass ?key Q i = filter (\<lambda>y. attribs y \<noteq> CHR ''A'') Q"
      unfolding klass_def using False by simp
    have ro: "r = orr" using r Cons.prems(6) kl by simp
    let ?or1 = "if orr = 0 then i else orr"
    have step: "init_partitions_step attribs i (ar, orr, g) = Some (ar, ?or1, g1)"
      using False u ro by (auto simp: init_partitions_step_def)
    have o2: "?or1 = first_of (filter (\<lambda>y. attribs y \<noteq> CHR ''A'') (P @ [i]))"
      using f1 ro kl by simp
    have a1: "ar = first_of (filter (\<lambda>y. attribs y = CHR ''A'') (P @ [i]))"
      using Cons.prems(5) False by simp
    from Cons.IH[OF d1 p1 c1 z1 a1 o2] obtain ar' or' g' where
      run: "for_each (init_partitions_step attribs) rest (ar, ?or1, g1) = Some (ar', or', g')"
      and c: "\<forall>x\<in>set (P @ i # rest). g' x = canon_cell ?key (P @ i # rest) x"
      and o: "\<forall>x. x \<notin> set (P @ i # rest) \<longrightarrow> g' x = g1 x"
      unfolding M by blast
    have "for_each (init_partitions_step attribs) (i # rest) (ar, orr, g) = Some (ar', or', g')"
      using step run by simp
    moreover have "\<forall>x. x \<notin> set (P @ i # rest) \<longrightarrow> g' x = g x"
      using o o1 by auto
    ultimately show ?thesis using c by blast
  qed
qed

lemma clear_groups:
  "fold (\<lambda>i g. g(i := 0)) xs g = (\<lambda>x. if x \<in> set xs then 0 else g x)"
  by (induction xs arbitrary: g) (auto simp: fun_eq_iff)

lemma init_partitions_canonical:
  "\<exists>g. init_partitions n attribs groups = Some g
        \<and> (\<forall>x\<in>set [1..n]. g x = canon_cell (\<lambda>x. attribs x = CHR ''A'') [1..n] x)
        \<and> canonical_on [1..n] g"
proof -
  let ?g0 = "\<lambda>x. if x \<in> set [1..n] then 0 else groups x"
  have d: "distinct ([] @ [1..n])" and p: "\<forall>x\<in>set ([] @ [1..n]). x > 0" by simp_all
  have c: "\<forall>x\<in>set []. ?g0 x = canon_cell (\<lambda>x. attribs x = CHR ''A'') [] x" by simp
  have z: "\<forall>x\<in>set [1..n]. ?g0 x = 0" by simp
  have a: "0 = first_of (filter (\<lambda>y. attribs y = CHR ''A'') [])" by (simp add: first_of_def)
  have b: "0 = first_of (filter (\<lambda>y. attribs y \<noteq> CHR ''A'') [])" by (simp add: first_of_def)
  from init_partitions_loop[OF d p c z a b] obtain ar' or' g' where
    run: "for_each (init_partitions_step attribs) [1..n] (0, 0, ?g0) = Some (ar', or', g')"
    and cells: "\<forall>x\<in>set [1..n]. g' x = canon_cell (\<lambda>x. attribs x = CHR ''A'') [1..n] x"
    by auto
  have "init_partitions n attribs groups = Some g'"
    unfolding init_partitions_def clear_groups using run by simp
  moreover have "canonical_on [1..n] g'" using upto_pos cells by (rule canonical_onI)
  ultimately show ?thesis using cells by blast
qed

subsection \<open>Termination of the refinement loop\<close>

lemma partition_calls_loop:
  "partition_calls k dfa g = Some gf \<Longrightarrow> partition_loop dfa g = Some gf"
proof (induction k arbitrary: g)
  case 0
  then show ?case by simp
next
  case (Suc k)
  from Suc.prems obtain upd g' where pc: "partition_c dfa g = Some (upd, g')"
    by (cases "partition_c dfa g") auto
  show ?case
  proof (cases upd)
    case True
    with Suc.prems pc have "partition_calls k dfa g' = Some gf" by simp
    then have "partition_loop dfa g' = Some gf" by (rule Suc.IH)
    with pc True show ?thesis by (subst partition_loop.simps) simp
  next
    case False
    with Suc.prems pc have "gf = g'" by simp
    with pc False show ?thesis by (subst partition_loop.simps) simp
  qed
qed

lemma class_count_pos:
  assumes can: "canonical_on [1..n] g" and n: "1 \<le> n"
  shows "1 \<le> class_count n g"
proof -
  have cells: "\<forall>x\<in>set [1..n]. g x = canon_cell (flat_root g) [1..n] x"
    using can by (rule canonical_on_cells)
  have "1 \<in> set [1..n]" using n by simp
  from canon_root[OF upto_pos cells this]
  have "flat_root g 1 \<in> {r. 1 \<le> r \<and> r \<le> n \<and> g r \<le> 0}" by simp
  moreover have "{r. 1 \<le> r \<and> r \<le> n \<and> g r \<le> 0} \<subseteq> {1..n}" by auto
  then have "finite {r. 1 \<le> r \<and> r \<le> n \<and> g r \<le> 0}" by (rule finite_subset) simp
  ultimately have "card {r. 1 \<le> r \<and> r \<le> n \<and> g r \<le> 0} \<noteq> 0" by (metis card_0_eq empty_iff)
  then show ?thesis by (simp add: class_count_def)
qed

lemma partition_calls_terminates:
  assumes vm: "valid_mat (mat dfa) (nstates dfa) (nab dfa)"
  shows "canonical_on [1..nstates dfa] g \<Longrightarrow> nat (nstates dfa) < class_count (nstates dfa) g + k \<Longrightarrow>
         \<exists>gf. partition_calls k dfa g = Some gf \<and> canonical_on [1..nstates dfa] gf
               \<and> refines (nstates dfa) g gf \<and> stable dfa gf"
proof (induction k arbitrary: g)
  case 0
  then show ?case using class_count_le[of "nstates dfa" g] by simp
next
  case (Suc k)
  let ?n = "nstates dfa"
  from partition_c_canonical[OF Suc.prems(1) vm] obtain upd g' where
    pc: "partition_c dfa g = Some (upd, g')"
    and c: "canonical_on [1..?n] g'"
    and r: "refines ?n g g'"
    and u: "upd \<longleftrightarrow> class_count ?n g < class_count ?n g'"
    and f: "\<not> upd \<longrightarrow> g' = g \<and> stable dfa g" by blast
  show ?case
  proof (cases upd)
    case True
    then have "nat ?n < class_count ?n g' + k" using u Suc.prems(2) by linarith
    from Suc.IH[OF c this] obtain gf where
      pk: "partition_calls k dfa g' = Some gf" and cf: "canonical_on [1..?n] gf"
      and rf: "refines ?n g' gf" and sf: "stable dfa gf" by blast
    have "partition_calls (Suc k) dfa g = Some gf" using pc True pk by simp
    moreover have "refines ?n g gf" using r rf by (rule refines_trans)
    ultimately show ?thesis using cf sf by blast
  next
    case False
    then have e: "g' = g" and s: "stable dfa g" using f by blast+
    have "partition_calls (Suc k) dfa g = Some g" using pc False e by simp
    then show ?thesis using Suc.prems(1) s refines_refl[of ?n g] by blast
  qed
qed


lemma final_partition_result:
  assumes v: "valid_dfa dfa"
  shows "\<exists>g0 gf. init_partitions (nstates dfa) (state_attrib dfa) groups0 = Some g0
           \<and> partition_calls (nat (nstates dfa)) dfa g0 = Some gf
           \<and> final_partition dfa groups0 = Some gf
           \<and> canonical_on [1..nstates dfa] gf \<and> stable dfa gf
           \<and> (\<forall>x\<in>{1..nstates dfa}. \<forall>y\<in>{1..nstates dfa}.
                  flat_root gf x = flat_root gf y \<longrightarrow>
                  (state_attrib dfa x = CHR ''A'' \<longleftrightarrow> state_attrib dfa y = CHR ''A''))"
proof -
  let ?n = "nstates dfa"
  let ?key = "\<lambda>x. state_attrib dfa x = CHR ''A''"
  have vm: "valid_mat (mat dfa) ?n (nab dfa)" and n: "1 \<le> ?n"
    using v by (simp_all add: valid_dfa_def)
  from init_partitions_canonical[of ?n "state_attrib dfa" groups0] obtain g0 where
    i: "init_partitions ?n (state_attrib dfa) groups0 = Some g0"
    and cells: "\<forall>x\<in>set [1..?n]. g0 x = canon_cell ?key [1..?n] x"
    and c0: "canonical_on [1..?n] g0" by blast
  have "nat ?n < class_count ?n g0 + nat ?n" using class_count_pos[OF c0 n] by linarith
  from partition_calls_terminates[OF vm c0 this] obtain gf where
    pk: "partition_calls (nat ?n) dfa g0 = Some gf" and cf: "canonical_on [1..?n] gf"
    and rf: "refines ?n g0 gf" and sf: "stable dfa gf" by blast
  have "partition_loop dfa g0 = Some gf" using pk by (rule partition_calls_loop)
  then have fp: "final_partition dfa groups0 = Some gf" using i by (simp add: final_partition_def)
  have hom: "\<forall>x\<in>{1..?n}. \<forall>y\<in>{1..?n}. flat_root gf x = flat_root gf y \<longrightarrow> (?key x \<longleftrightarrow> ?key y)"
  proof (intro ballI impI)
    fix x y assume x: "x \<in> {1..?n}" and y: "y \<in> {1..?n}" and e: "flat_root gf x = flat_root gf y"
    then have "flat_root g0 x = flat_root g0 y" using rf unfolding refines_def by blast
    moreover have "x \<in> set [1..?n]" "y \<in> set [1..?n]" using x y by simp_all
    ultimately show "?key x \<longleftrightarrow> ?key y" using canon_root_iff[OF upto_pos cells] by blast
  qed
  from i pk fp cf sf hom show ?thesis by blast
qed

lemma collapse_dfa_valid: "valid_dfa collapse_dfa"
  by (simp add: valid_dfa_def collapse_dfa_def valid_mat_def ball_interval_list upto_1_numeral
        MAX_STATES_def AB_SIZE_def matrix_def array_def)

lemma twins_dfa_valid: "valid_dfa twins_dfa"
  by (simp add: valid_dfa_def twins_dfa_def valid_mat_def ball_interval_list upto_1_numeral
        MAX_STATES_def AB_SIZE_def matrix_def array_def)



subsection \<open>The scan of compress_dfa\<close>

lemma compress_scan_step_flat:
  assumes inv: "scan_inv g P sc" and fl: "g i > 0 \<longrightarrow> g (g i) \<le> 0"
    and i: "i \<notin> set P" "i > 0" and pos: "\<forall>x\<in>set P. x > 0"
  shows "\<exists>sc'. compress_scan_step i sc = Some sc' \<and> scan_inv g (P @ [i]) sc'"
proof -
  let ?R = "filter (\<lambda>x. flat_root g x = x) P"
  from inv have G: "sc_groups sc = g" and rc: "rep_count sc = int (length ?R)"
    and rp: "\<forall>x\<in>set P. sc_rep sc x = flat_root g x"
    and z: "sc_rep sc 0 = 0" "sc_map sc 0 = 0" "sc_pam sc 0 = 0"
    and tab: "\<forall>k < length ?R. sc_pam sc (int k + 1) = ?R ! k \<and> sc_map sc (?R ! k) = int k + 1"
    by (simp_all add: scan_inv_def)
  have f: "find_c i (sc_groups sc) = Some (flat_root g i, g)"
    unfolding G using fl by (rule find_c_flat)
  have Rsub: "\<And>k. k < length ?R \<Longrightarrow> ?R ! k \<in> set P"
    using nth_mem[of _ ?R] by auto
  show ?thesis
  proof (cases "flat_root g i = i")
    case True
    let ?sc' = "sc\<lparr>sc_groups := g, sc_rep := (sc_rep sc)(i := i),
                    sc_map := (sc_map sc)(i := rep_count sc + 1),
                    sc_pam := (sc_pam sc)(rep_count sc + 1 := i),
                    rep_count := rep_count sc + 1\<rparr>"
    have st: "compress_scan_step i sc = Some ?sc'"
      using f True by (simp add: compress_scan_step_def Let_def)
    have R': "filter (\<lambda>x. flat_root g x = x) (P @ [i]) = ?R @ [i]" using True by simp
    have tab': "\<forall>k < length (?R @ [i]).
           sc_pam ?sc' (int k + 1) = (?R @ [i]) ! k \<and> sc_map ?sc' ((?R @ [i]) ! k) = int k + 1"
    proof (intro allI impI)
      fix k assume k: "k < length (?R @ [i])"
      show "sc_pam ?sc' (int k + 1) = (?R @ [i]) ! k \<and> sc_map ?sc' ((?R @ [i]) ! k) = int k + 1"
      proof (cases "k < length ?R")
        case True
        then have "?R ! k \<noteq> i" using Rsub[OF True] i(1) by auto
        moreover have "int k + 1 \<noteq> rep_count sc + 1" using True rc by simp
        ultimately show ?thesis using tab True by (simp add: nth_append)
      next
        case False
        then have "k = length ?R" using k by simp
        then show ?thesis using rc by (simp add: nth_append)
      qed
    qed
    have "scan_inv g (P @ [i]) ?sc'"
      unfolding scan_inv_def R'
      using rc rp z i True tab' by auto
    with st show ?thesis by blast
  next
    case False
    let ?sc' = "sc\<lparr>sc_groups := g, sc_rep := (sc_rep sc)(i := flat_root g i)\<rparr>"
    have st: "compress_scan_step i sc = Some ?sc'"
      using f False by (simp add: compress_scan_step_def Let_def)
    have R': "filter (\<lambda>x. flat_root g x = x) (P @ [i]) = ?R" using False by simp
    have "scan_inv g (P @ [i]) ?sc'"
      unfolding scan_inv_def R'
      using rc rp z i tab by auto
    with st show ?thesis by blast
  qed
qed

lemma compress_scan_loop:
  assumes fl: "\<forall>x\<in>set (P @ rest). g x > 0 \<longrightarrow> g (g x) \<le> 0"
    and dist: "distinct (P @ rest)" and pos: "\<forall>x\<in>set (P @ rest). x > 0"
    and inv: "scan_inv g P sc"
  shows "\<exists>sc'. for_each compress_scan_step rest sc = Some sc' \<and> scan_inv g (P @ rest) sc'"
  using assms
proof (induction rest arbitrary: P sc)
  case Nil
  then show ?case by simp
next
  case (Cons i rest)
  have fi: "g i > 0 \<longrightarrow> g (g i) \<le> 0" using Cons.prems(1) by simp
  have i: "i \<notin> set P" "i > 0" using Cons.prems(2,3) by auto
  have pp: "\<forall>x\<in>set P. x > 0" using Cons.prems(3) by simp
  from compress_scan_step_flat[OF Cons.prems(4) fi i pp] obtain sc1 where
    s1: "compress_scan_step i sc = Some sc1" and i1: "scan_inv g (P @ [i]) sc1" by blast
  have M: "(P @ [i]) @ rest = P @ i # rest" by simp
  have a: "\<forall>x\<in>set ((P @ [i]) @ rest). g x > 0 \<longrightarrow> g (g x) \<le> 0"
    using Cons.prems(1) by simp
  have b: "distinct ((P @ [i]) @ rest)" using Cons.prems(2) by simp
  have c: "\<forall>x\<in>set ((P @ [i]) @ rest). x > 0" using Cons.prems(3) by simp
  from Cons.IH[OF a b c i1] obtain sc' where
    "for_each compress_scan_step rest sc1 = Some sc'" "scan_inv g (P @ i # rest) sc'"
    unfolding M by blast
  with s1 show ?case by auto
qed

lemma compress_scan_flat:
  assumes "flat_on (nstates old_dfa) g"
  shows "\<exists>sc. compress_scan old_dfa g = Some sc \<and> scan_inv g [1..nstates old_dfa] sc"
proof -
  let ?sc0 = "\<lparr>sc_groups = g, sc_rep = undefined(0 := 0), sc_map = undefined(0 := 0),
               sc_pam = undefined(0 := 0), rep_count = 0\<rparr>"
  have i0: "scan_inv g [] ?sc0" by (simp add: scan_inv_def)
  have fl: "\<forall>x\<in>set ([] @ [1..nstates old_dfa]). g x > 0 \<longrightarrow> g (g x) \<le> 0"
    using assms by (simp add: flat_on_def)
  have d: "distinct ([] @ [1..nstates old_dfa])" and p: "\<forall>x\<in>set ([] @ [1..nstates old_dfa]). x > 0"
    by simp_all
  from compress_scan_loop[OF fl d p i0] show ?thesis by (simp add: compress_scan_def)
qed

subsection \<open>The fill loop of compress_dfa\<close>

lemma fill_row_mat:
  "mat (fold (\<lambda>j d. d\<lparr>mat := (mat d)(i := (mat d i)(j := v j))\<rparr>) js d) =
     (\<lambda>s j. if s = i \<and> j \<in> set js then v j else mat d s j)"
  by (induction js arbitrary: d) (auto simp: fun_eq_iff)

lemma fill_row_rest:
  "nstates (fold (\<lambda>j d. d\<lparr>mat := (mat d)(i := (mat d i)(j := v j))\<rparr>) js d) = nstates d
   \<and> nab (fold (\<lambda>j d. d\<lparr>mat := (mat d)(i := (mat d i)(j := v j))\<rparr>) js d) = nab d
   \<and> init_state (fold (\<lambda>j d. d\<lparr>mat := (mat d)(i := (mat d i)(j := v j))\<rparr>) js d) = init_state d
   \<and> accept (fold (\<lambda>j d. d\<lparr>mat := (mat d)(i := (mat d i)(j := v j))\<rparr>) js d) = accept d
   \<and> state_attrib (fold (\<lambda>j d. d\<lparr>mat := (mat d)(i := (mat d i)(j := v j))\<rparr>) js d) = state_attrib d"
  by (induction js arbitrary: d) auto

lemma compress_fill_step_fields:
  assumes "compress_fill_step old_dfa sc i (new, a) = (new1, a1)"
  shows "nstates new1 = nstates new \<and> nab new1 = nab new \<and> init_state new1 = init_state new"
    and "\<forall>s j. mat new1 s j = (if s = i \<and> j \<in> {1..nab old_dfa}
                                then sc_map sc (sc_rep sc (mat old_dfa (sc_pam sc i) j))
                                else mat new s j)"
    and "\<forall>s. state_attrib new1 s = (if s = i then state_attrib old_dfa (sc_pam sc i)
                                     else state_attrib new s)"
    and "state_attrib old_dfa (sc_pam sc i) = CHR ''A'' \<longrightarrow>
           a1 = a + 1 \<and> accept new1 = (accept new)(a := i)"
    and "state_attrib old_dfa (sc_pam sc i) \<noteq> CHR ''A'' \<longrightarrow>
           a1 = a \<and> accept new1 = accept new"
  using assms
  by (auto simp: compress_fill_step_def Let_def fill_row_mat fill_row_rest split: if_splits)

lemma compress_fill_loop:
  assumes "fold (compress_fill_step old_dfa sc) is (new, a) = (new', a')"
  shows "nstates new' = nstates new \<and> nab new' = nab new \<and> init_state new' = init_state new
       \<and> (\<forall>s j. mat new' s j = (if s \<in> set is \<and> j \<in> {1..nab old_dfa}
                                   then sc_map sc (sc_rep sc (mat old_dfa (sc_pam sc s) j))
                                   else mat new s j))
       \<and> (\<forall>s. state_attrib new' s = (if s \<in> set is then state_attrib old_dfa (sc_pam sc s)
                                        else state_attrib new s))
       \<and> a' = a + int (length (filter (\<lambda>i. state_attrib old_dfa (sc_pam sc i) = CHR ''A'') is))
       \<and> (\<forall>k. k < a \<or> a' \<le> k \<longrightarrow> accept new' k = accept new k)
       \<and> (\<forall>k. a \<le> k \<and> k < a' \<longrightarrow>
              accept new' k \<in> set (filter (\<lambda>i. state_attrib old_dfa (sc_pam sc i) = CHR ''A'') is))"
  using assms
proof (induction "is" arbitrary: new a)
  case Nil
  then show ?case by simp
next
  case (Cons i rest)
  let ?A = "\<lambda>i. state_attrib old_dfa (sc_pam sc i) = CHR ''A''"
  obtain new1 a1 where st: "compress_fill_step old_dfa sc i (new, a) = (new1, a1)"
    by (cases "compress_fill_step old_dfa sc i (new, a)") blast
  note F = compress_fill_step_fields[OF st]
  have run: "fold (compress_fill_step old_dfa sc) rest (new1, a1) = (new', a')"
    using Cons.prems st by simp
  note IH = Cons.IH[OF run]
  have f1: "nstates new' = nstates new \<and> nab new' = nab new \<and> init_state new' = init_state new"
    using IH F(1) by simp
  have f2: "\<forall>s j. mat new' s j = (if s \<in> set (i # rest) \<and> j \<in> {1..nab old_dfa}
                                   then sc_map sc (sc_rep sc (mat old_dfa (sc_pam sc s) j))
                                   else mat new s j)"
  proof (intro allI)
    fix s j
    have a: "mat new' s j = (if s \<in> set rest \<and> j \<in> {1..nab old_dfa}
                                   then sc_map sc (sc_rep sc (mat old_dfa (sc_pam sc s) j))
                                   else mat new1 s j)" using IH by blast
    have b: "mat new1 s j = (if s = i \<and> j \<in> {1..nab old_dfa}
                                then sc_map sc (sc_rep sc (mat old_dfa (sc_pam sc i) j))
                                else mat new s j)" using F(2) by blast
    show "mat new' s j = (if s \<in> set (i # rest) \<and> j \<in> {1..nab old_dfa}
                                   then sc_map sc (sc_rep sc (mat old_dfa (sc_pam sc s) j))
                                   else mat new s j)"
      unfolding a b by auto
  qed
  have f3: "\<forall>s. state_attrib new' s = (if s \<in> set (i # rest) then state_attrib old_dfa (sc_pam sc s)
                                        else state_attrib new s)"
  proof (intro allI)
    fix s
    have a: "state_attrib new' s = (if s \<in> set rest then state_attrib old_dfa (sc_pam sc s)
                                        else state_attrib new1 s)" using IH by blast
    have b: "state_attrib new1 s = (if s = i then state_attrib old_dfa (sc_pam sc i)
                                     else state_attrib new s)" using F(3) by blast
    show "state_attrib new' s = (if s \<in> set (i # rest) then state_attrib old_dfa (sc_pam sc s)
                                        else state_attrib new s)"
      unfolding a b by auto
  qed
  have a'eq: "a' = a1 + int (length (filter ?A rest))" using IH by blast
  have keep: "\<forall>k. k < a1 \<or> a' \<le> k \<longrightarrow> accept new' k = accept new1 k" using IH by blast
  have mem: "\<forall>k. a1 \<le> k \<and> k < a' \<longrightarrow> accept new' k \<in> set (filter ?A rest)" using IH by blast
  show ?case
  proof (cases "?A i")
    case True
    then have a1: "a1 = a + 1" and acc: "accept new1 = (accept new)(a := i)" using F(4) by blast+
    have f4: "a' = a + int (length (filter ?A (i # rest)))" using a'eq a1 True by simp
    have f5: "\<forall>k. k < a \<or> a' \<le> k \<longrightarrow> accept new' k = accept new k"
    proof (intro allI impI)
      fix k assume k: "k < a \<or> a' \<le> k"
      then have "k < a1 \<or> a' \<le> k" using a1 by auto
      then have "accept new' k = accept new1 k" using keep by blast
      moreover have "k \<noteq> a" using k a'eq a1 by auto
      ultimately show "accept new' k = accept new k" using acc by simp
    qed
    have f6: "\<forall>k. a \<le> k \<and> k < a' \<longrightarrow> accept new' k \<in> set (filter ?A (i # rest))"
    proof (intro allI impI)
      fix k assume k: "a \<le> k \<and> k < a'"
      show "accept new' k \<in> set (filter ?A (i # rest))"
      proof (cases "k = a")
        case True
        then have "k < a1" using a1 by simp
        then have "accept new' k = accept new1 k" using keep by blast
        then have "accept new' k = i" using acc True by simp
        then show ?thesis using \<open>?A i\<close> by simp
      next
        case False
        then have "a1 \<le> k \<and> k < a'" using k a1 by auto
        then have "accept new' k \<in> set (filter ?A rest)" using mem by blast
        then show ?thesis by auto
      qed
    qed
    from f1 f2 f3 f4 f5 f6 show ?thesis by blast
  next
    case False
    then have a1: "a1 = a" and acc: "accept new1 = accept new" using F(5) by blast+
    have f4: "a' = a + int (length (filter ?A (i # rest)))" using a'eq a1 False by simp
    have f5: "\<forall>k. k < a \<or> a' \<le> k \<longrightarrow> accept new' k = accept new k"
      using keep a1 acc by simp
    have f6: "\<forall>k. a \<le> k \<and> k < a' \<longrightarrow> accept new' k \<in> set (filter ?A (i # rest))"
    proof (intro allI impI)
      fix k assume k: "a \<le> k \<and> k < a'"
      then have "accept new' k \<in> set (filter ?A rest)" using mem a1 by blast
      then show "accept new' k \<in> set (filter ?A (i # rest))" by auto
    qed
    from f1 f2 f3 f4 f5 f6 show ?thesis by blast
  qed
qed

subsection \<open>The automaton compress_dfa builds\<close>

lemma compress_dfa_fields:
  assumes sc: "compress_scan old_dfa g = Some sc"
  shows "\<exists>out. compress_dfa old_dfa new g = Some out
           \<and> nstates out = rep_count sc \<and> nab out = nab old_dfa
           \<and> init_state out = sc_map sc (sc_rep sc (init_state old_dfa))
           \<and> (\<forall>s j. mat out s j = (if s \<in> {1..rep_count sc} \<and> j \<in> {1..nab old_dfa}
                                     then sc_map sc (sc_rep sc (mat old_dfa (sc_pam sc s) j))
                                     else mat new s j))
           \<and> (\<forall>s. state_attrib out s = (if s \<in> {1..rep_count sc}
                                          then state_attrib old_dfa (sc_pam sc s)
                                          else state_attrib new s))
           \<and> (\<forall>k. k < 0 \<or> int (length (filter (\<lambda>i. state_attrib old_dfa (sc_pam sc i) = CHR ''A'')
                                                [1..rep_count sc])) \<le> k
                    \<longrightarrow> accept out k = accept new k)
           \<and> (\<forall>k. 0 \<le> k \<and> k < int (length (filter (\<lambda>i. state_attrib old_dfa (sc_pam sc i) = CHR ''A'')
                                                [1..rep_count sc]))
                    \<longrightarrow> accept out k \<in> set (filter (\<lambda>i. state_attrib old_dfa (sc_pam sc i) = CHR ''A'')
                                                [1..rep_count sc]))"
proof -
  obtain new1 a_count where
    fl: "fold (compress_fill_step old_dfa sc) [1..rep_count sc] (new, 0) = (new1, a_count)"
    by (cases "fold (compress_fill_step old_dfa sc) [1..rep_count sc] (new, 0)") blast
  note F = compress_fill_loop[OF fl]
  let ?out = "new1\<lparr>nstates := rep_count sc, nab := nab old_dfa,
                    init_state := sc_map sc (sc_rep sc (init_state old_dfa))\<rparr>"
  have c: "compress_dfa old_dfa new g = Some ?out"
    using sc fl by (simp add: compress_dfa_def)
  have m: "\<forall>s j. mat ?out s j = (if s \<in> {1..rep_count sc} \<and> j \<in> {1..nab old_dfa}
                                     then sc_map sc (sc_rep sc (mat old_dfa (sc_pam sc s) j))
                                     else mat new s j)"
    using F by simp
  have a: "\<forall>s. state_attrib ?out s = (if s \<in> {1..rep_count sc}
                                          then state_attrib old_dfa (sc_pam sc s)
                                          else state_attrib new s)"
    using F by simp
  have ac: "a_count = int (length (filter (\<lambda>i. state_attrib old_dfa (sc_pam sc i) = CHR ''A'')
                                                [1..rep_count sc]))"
    using F by simp
  have k1: "\<forall>k. k < 0 \<or> a_count \<le> k \<longrightarrow> accept ?out k = accept new k"
    using F by simp
  have k2: "\<forall>k. 0 \<le> k \<and> k < a_count \<longrightarrow>
              accept ?out k \<in> set (filter (\<lambda>i. state_attrib old_dfa (sc_pam sc i) = CHR ''A'')
                                                [1..rep_count sc])"
    using F by simp
  have "nstates ?out = rep_count sc \<and> nab ?out = nab old_dfa
           \<and> init_state ?out = sc_map sc (sc_rep sc (init_state old_dfa))" by simp
  with c m a k1 k2 show ?thesis unfolding ac by blast
qed

lemma scan_tables:
  assumes can: "canonical_on [1..n] g" and inv: "scan_inv g [1..n] sc" and n0: "0 \<le> n"
  shows "sc_map sc (sc_rep sc 0) = 0"
    and "\<forall>x\<in>{1..n}. sc_rep sc x = flat_root g x
                      \<and> 1 \<le> sc_map sc (sc_rep sc x) \<and> sc_map sc (sc_rep sc x) \<le> rep_count sc
                      \<and> sc_pam sc (sc_map sc (sc_rep sc x)) = flat_root g x"
    and "\<forall>k\<in>{1..rep_count sc}. 1 \<le> sc_pam sc k \<and> sc_pam sc k \<le> n
                      \<and> flat_root g (sc_pam sc k) = sc_pam sc k \<and> sc_map sc (sc_pam sc k) = k"
    and "rep_count sc \<le> n" and "0 \<le> rep_count sc"
proof -
  let ?R = "filter (\<lambda>x. flat_root g x = x) [1..n]"
  from inv have rc: "rep_count sc = int (length ?R)"
    and rp: "\<forall>x\<in>set [1..n]. sc_rep sc x = flat_root g x"
    and z: "sc_rep sc 0 = 0" "sc_map sc 0 = 0"
    and tab: "\<forall>k < length ?R. sc_pam sc (int k + 1) = ?R ! k \<and> sc_map sc (?R ! k) = int k + 1"
    by (simp_all add: scan_inv_def)
  have cells: "\<forall>x\<in>set [1..n]. g x = canon_cell (flat_root g) [1..n] x"
    using can by (rule canonical_on_cells)
  show "sc_map sc (sc_rep sc 0) = 0" using z by simp
  show "\<forall>x\<in>{1..n}. sc_rep sc x = flat_root g x
                      \<and> 1 \<le> sc_map sc (sc_rep sc x) \<and> sc_map sc (sc_rep sc x) \<le> rep_count sc
                      \<and> sc_pam sc (sc_map sc (sc_rep sc x)) = flat_root g x"
  proof
    fix x assume "x \<in> {1..n}"
    then have x: "x \<in> set [1..n]" by simp
    let ?r = "flat_root g x"
    from canon_root[OF upto_pos cells x] have rin: "?r \<in> set [1..n]" and rr: "g ?r \<le> 0" by simp_all
    from rr have "flat_root g ?r = ?r" by (simp add: flat_root_def)
    with rin have "?r \<in> set ?R" by simp
    then have "\<exists>k<length ?R. ?R ! k = ?r" by (simp only: in_set_conv_nth)
    then obtain k where k: "k < length ?R" and rk: "?R ! k = ?r" by blast
    from tab k rk have "sc_pam sc (int k + 1) = ?r" and "sc_map sc ?r = int k + 1" by auto
    moreover have "sc_rep sc x = ?r" using rp x by blast
    ultimately show "sc_rep sc x = ?r
                      \<and> 1 \<le> sc_map sc (sc_rep sc x) \<and> sc_map sc (sc_rep sc x) \<le> rep_count sc
                      \<and> sc_pam sc (sc_map sc (sc_rep sc x)) = ?r"
      using k rc by simp
  qed
  show "\<forall>k\<in>{1..rep_count sc}. 1 \<le> sc_pam sc k \<and> sc_pam sc k \<le> n
                      \<and> flat_root g (sc_pam sc k) = sc_pam sc k \<and> sc_map sc (sc_pam sc k) = k"
  proof
    fix k assume k: "k \<in> {1..rep_count sc}"
    let ?k = "nat (k - 1)"
    have kl: "?k < length ?R" using k rc by auto
    have ke: "int ?k + 1 = k" using k by auto
    from tab kl have "sc_pam sc (int ?k + 1) = ?R ! ?k" and "sc_map sc (?R ! ?k) = int ?k + 1" by auto
    then have p: "sc_pam sc k = ?R ! ?k" and m: "sc_map sc (?R ! ?k) = k" unfolding ke by simp_all
    have "?R ! ?k \<in> set ?R" using kl by (rule nth_mem)
    then have "?R ! ?k \<in> {1..n}" and "flat_root g (?R ! ?k) = ?R ! ?k" by auto
    with p m show "1 \<le> sc_pam sc k \<and> sc_pam sc k \<le> n
                      \<and> flat_root g (sc_pam sc k) = sc_pam sc k \<and> sc_map sc (sc_pam sc k) = k"
      by simp
  qed
  have "length ?R \<le> length [1..n]" by (rule length_filter_le)
  then show "rep_count sc \<le> n" using rc n0 by simp
  show "0 \<le> rep_count sc" using rc by simp
qed

subsection \<open>Runs of the compressed automaton\<close>

lemma run_in_range:
  assumes vm: "valid_mat m n k"
  shows "0 \<le> s \<Longrightarrow> s \<le> n \<Longrightarrow> set w \<subseteq> {1..k} \<Longrightarrow>
         0 \<le> foldl (dfa_step m) s w \<and> foldl (dfa_step m) s w \<le> n"
proof (induction w arbitrary: s)
  case Nil
  then show ?case by simp
next
  case (Cons j w)
  have "0 \<le> dfa_step m s j \<and> dfa_step m s j \<le> n"
    using vm Cons.prems by (auto simp: dfa_step_def valid_mat_def)
  then show ?case using Cons.IH[of "dfa_step m s j"] Cons.prems by simp
qed

lemma run_simulation:
  assumes vm: "valid_mat m n k"
    and h0: "h 0 = 0" and h1: "\<forall>x\<in>{1..n}. 1 \<le> h x"
    and tr: "\<forall>s\<in>{1..n}. \<forall>j\<in>{1..k}. m' (h s) j = h (m s j)"
  shows "0 \<le> s \<Longrightarrow> s \<le> n \<Longrightarrow> set w \<subseteq> {1..k} \<Longrightarrow>
         foldl (dfa_step m') (h s) w = h (foldl (dfa_step m) s w)"
proof (induction w arbitrary: s)
  case Nil
  then show ?case by simp
next
  case (Cons j w)
  have j: "j \<in> {1..k}" and w: "set w \<subseteq> {1..k}" using Cons.prems(3) by simp_all
  have rng: "0 \<le> dfa_step m s j \<and> dfa_step m s j \<le> n"
    using vm Cons.prems j by (auto simp: dfa_step_def valid_mat_def)
  have st: "dfa_step m' (h s) j = h (dfa_step m s j)"
  proof (cases "1 \<le> s")
    case True
    then have s: "s \<in> {1..n}" using Cons.prems(2) by simp
    then have "1 \<le> h s" using h1 by blast
    then show ?thesis using True tr s j by (simp add: dfa_step_def)
  next
    case False
    then have "s = 0" using Cons.prems(1) by simp
    then show ?thesis using h0 by (simp add: dfa_step_def)
  qed
  have "foldl (dfa_step m') (h s) (j # w) = foldl (dfa_step m') (h (dfa_step m s j)) w"
    using st by simp
  also have "\<dots> = h (foldl (dfa_step m) (dfa_step m s j) w)"
    using rng w by (intro Cons.IH) simp_all
  finally show ?case by simp
qed

lemma run_reachable:
  assumes vm: "valid_mat m n k"
  shows "1 \<le> s \<Longrightarrow> s \<le> n \<Longrightarrow> set w \<subseteq> {1..k} \<Longrightarrow> 1 \<le> foldl (dfa_step m) s w \<Longrightarrow>
         (s, foldl (dfa_step m) s w) \<in> (direct m n k)\<^sup>*"
proof (induction w arbitrary: s)
  case Nil
  then show ?case by simp
next
  case (Cons j w)
  have j: "j \<in> {1..k}" and w: "set w \<subseteq> {1..k}" using Cons.prems(3) by simp_all
  let ?t = "dfa_step m s j"
  have t: "?t = m s j" using Cons.prems(1) by (simp add: dfa_step_def)
  have zero: "\<And>u. foldl (dfa_step m) 0 u = 0"
  proof -
    fix u show "foldl (dfa_step m) 0 u = 0" by (induction u) (simp_all add: dfa_step_def)
  qed
  have rng: "0 \<le> ?t \<and> ?t \<le> n"
    using vm Cons.prems(1,2) j t by (auto simp: valid_mat_def)
  have "?t \<noteq> 0"
  proof
    assume "?t = 0"
    then have "foldl (dfa_step m) s (j # w) = 0" using zero by simp
    with Cons.prems(4) show False by simp
  qed
  with rng have t1: "1 \<le> ?t" by simp
  have e: "(s, ?t) \<in> direct m n k"
    using Cons.prems(1,2) j t t1 by (auto simp: direct_def)
  have "1 \<le> foldl (dfa_step m) ?t w" using Cons.prems(4) by simp
  from Cons.IH[OF t1 _ w this] rng have "(?t, foldl (dfa_step m) ?t w) \<in> (direct m n k)\<^sup>*" by simp
  with e show ?case by (simp add: converse_rtrancl_into_rtrancl)
qed

subsection \<open>The compressed automaton is the quotient by the final partition\<close>

lemma signature_cell:
  assumes "signature m k g x = signature m k g y" and "j \<in> {1..k}"
  shows "cls g (m x j) = cls g (m y j)"
proof -
  from assms(1) have "\<forall>j\<in>set [1..k]. cls g (m x j) = cls g (m y j)"
    unfolding signature_def by (simp only: map_eq_conv)
  with assms(2) show ?thesis by simp
qed

lemma compress_dfa_quotient:
  assumes v: "valid_dfa dfa"
  shows "\<exists>gf sc out. quotient_built dfa groups0 new gf sc out"
proof -
  let ?n = "nstates dfa" and ?k = "nab dfa"
  have vm: "valid_mat (mat dfa) ?n ?k" and n1: "1 \<le> ?n"
    using v by (simp_all add: valid_dfa_def)
  from final_partition_result[OF v, of groups0] obtain gf where
    fp: "final_partition dfa groups0 = Some gf"
    and can: "canonical_on [1..?n] gf" and st: "stable dfa gf"
    and hom: "\<forall>x\<in>{1..?n}. \<forall>y\<in>{1..?n}. flat_root gf x = flat_root gf y \<longrightarrow>
                  (state_attrib dfa x = CHR ''A'' \<longleftrightarrow> state_attrib dfa y = CHR ''A'')"
    by blast
  have cells: "\<forall>x\<in>set [1..?n]. gf x = canon_cell (flat_root gf) [1..?n] x"
    using can by (rule canonical_on_cells)
  have fl: "flat_on ?n gf" using can by (rule canonical_flat_on)
  from compress_scan_flat[OF fl] obtain sc where
    cs: "compress_scan dfa gf = Some sc" and inv: "scan_inv gf [1..?n] sc" by blast
  have n0: "0 \<le> ?n" using n1 by simp
  note T = scan_tables[OF can inv n0]
  let ?m = "rep_count sc"
  let ?h = "\<lambda>x. sc_map sc (sc_rep sc x)"
  from compress_dfa_fields[OF cs, of new] obtain out where
    cd: "compress_dfa dfa new gf = Some out"
    and ns: "nstates out = ?m" and na: "nab out = ?k"
    and ini: "init_state out = ?h (init_state dfa)"
    and mt: "\<forall>s j. mat out s j = (if s \<in> {1..?m} \<and> j \<in> {1..?k}
                                     then ?h (mat dfa (sc_pam sc s) j) else mat new s j)"
    and at: "\<forall>s. state_attrib out s = (if s \<in> {1..?m} then state_attrib dfa (sc_pam sc s)
                                          else state_attrib new s)"
    and ak: "\<forall>k. k < 0 \<or> int (length (filter (\<lambda>i. state_attrib dfa (sc_pam sc i) = CHR ''A'')
                                                [1..?m])) \<le> k
                    \<longrightarrow> accept out k = accept new k"
    and aw: "\<forall>k. 0 \<le> k \<and> k < int (length (filter (\<lambda>i. state_attrib dfa (sc_pam sc i) = CHR ''A'')
                                                [1..?m]))
                    \<longrightarrow> accept out k \<in> set (filter (\<lambda>i. state_attrib dfa (sc_pam sc i) = CHR ''A'')
                                                [1..?m])"
    by blast
  have hrep: "\<And>x. x \<in> {1..?n} \<Longrightarrow> sc_rep sc x = flat_root gf x"
    using T(2) by blast
  have hS: "\<And>x. x \<in> {1..?n} \<Longrightarrow> 1 \<le> ?h x \<and> ?h x \<le> ?m
                      \<and> sc_pam sc (?h x) = flat_root gf x"
    using T(2) by blast
  have h0: "?h 0 = 0" using T(1) .
  have sc0: "sc_rep sc 0 = 0" using inv by (simp add: scan_inv_def)
  have hcls: "\<And>t. 0 \<le> t \<Longrightarrow> t \<le> ?n \<Longrightarrow> ?h t = sc_map sc (cls gf t)"
  proof -
    fix t assume "0 \<le> t" "t \<le> ?n"
    show "?h t = sc_map sc (cls gf t)"
    proof (cases "t = 0")
      case True
      then show ?thesis using sc0 by (simp add: cls_def)
    next
      case False
      then have "t \<in> {1..?n}" using \<open>0 \<le> t\<close> \<open>t \<le> ?n\<close> by simp
      then have "sc_rep sc t = flat_root gf t" using hrep by blast
      moreover have "cls gf t = flat_root gf t" using False \<open>0 \<le> t\<close> by (simp add: cls_def)
      ultimately show ?thesis by simp
    qed
  qed
  have rootS: "\<And>x. x \<in> {1..?n} \<Longrightarrow> flat_root gf x \<in> {1..?n}
                       \<and> flat_root gf (flat_root gf x) = flat_root gf x"
  proof -
    fix x assume "x \<in> {1..?n}"
    then have "x \<in> set [1..?n]" by simp
    from canon_root[OF upto_pos cells this]
    show "flat_root gf x \<in> {1..?n} \<and> flat_root gf (flat_root gf x) = flat_root gf x"
      by (simp add: flat_root_def)
  qed
  have tgt: "\<And>s j. s \<in> {1..?n} \<Longrightarrow> j \<in> {1..?k} \<Longrightarrow> 0 \<le> mat dfa s j \<and> mat dfa s j \<le> ?n"
    using vm by (simp add: valid_mat_def)
  have S2: "\<forall>s\<in>{1..?n}. \<forall>j\<in>{1..?k}. mat out (?h s) j = ?h (mat dfa s j)"
  proof (intro ballI)
    fix s j assume s: "s \<in> {1..?n}" and j: "j \<in> {1..?k}"
    let ?r = "flat_root gf s"
    have hm: "?h s \<in> {1..?m}" using hS[OF s] by auto
    have pm: "sc_pam sc (?h s) = ?r" using hS[OF s] by blast
    have r: "?r \<in> {1..?n}" using rootS[OF s] by blast
    have rr: "flat_root gf ?r = flat_root gf s" using rootS[OF s] by blast
    have sg: "signature (mat dfa) ?k gf ?r = signature (mat dfa) ?k gf s"
      using st r s rr unfolding stable_def by blast
    have "mat out (?h s) j = ?h (mat dfa ?r j)" using mt hm j pm by simp
    also have "\<dots> = sc_map sc (cls gf (mat dfa ?r j))" using tgt[OF r j] by (intro hcls) simp_all
    also have "cls gf (mat dfa ?r j) = cls gf (mat dfa s j)"
      using sg j by (rule signature_cell)
    also have "sc_map sc (cls gf (mat dfa s j)) = ?h (mat dfa s j)"
      using tgt[OF s j] by (intro hcls[symmetric]) simp_all
    finally show "mat out (?h s) j = ?h (mat dfa s j)" .
  qed
  have S3: "\<forall>s\<in>{1..?n}. state_attrib out (?h s) = CHR ''A'' \<longleftrightarrow> state_attrib dfa s = CHR ''A''"
  proof
    fix s assume s: "s \<in> {1..?n}"
    let ?r = "flat_root gf s"
    have hm: "?h s \<in> {1..?m}" using hS[OF s] by auto
    have pm: "sc_pam sc (?h s) = ?r" using hS[OF s] by blast
    have r: "?r \<in> {1..?n}" using rootS[OF s] by blast
    have rr: "flat_root gf ?r = flat_root gf s" using rootS[OF s] by blast
    have "state_attrib out (?h s) = state_attrib dfa ?r" using at hm pm by simp
    moreover have "state_attrib dfa ?r = CHR ''A'' \<longleftrightarrow> state_attrib dfa s = CHR ''A''"
      using hom r s rr by blast
    ultimately show "state_attrib out (?h s) = CHR ''A'' \<longleftrightarrow> state_attrib dfa s = CHR ''A''"
      by simp
  qed
  have one: "(1::int) \<in> {1..?n}" using n1 by simp
  have m1: "1 \<le> ?m" using hS[OF one] by auto
  have mn: "?m \<le> ?n" using T(4) .
  have vout: "valid_mat (mat out) (nstates out) (nab out)"
    unfolding valid_mat_def ns na
  proof (intro ballI)
    fix s j assume s: "s \<in> {1..?m}" and j: "j \<in> {1..?k}"
    have p: "sc_pam sc s \<in> {1..?n}" using T(3) s by simp
    let ?t = "mat dfa (sc_pam sc s) j"
    have e: "mat out s j = ?h ?t" using mt s j by simp
    have "0 \<le> ?h ?t \<and> ?h ?t \<le> ?m"
    proof (cases "?t = 0")
      case True
      then show ?thesis using h0 T(5) by simp
    next
      case False
      then have "?t \<in> {1..?n}" using tgt[OF p j] by simp
      from hS[OF this] show ?thesis by auto
    qed
    with e show "0 \<le> mat out s j \<and> mat out s j \<le> ?m" by simp
  qed
  let ?A = "filter (\<lambda>i. state_attrib out i = CHR ''A'') [1..nstates out]"
  have Aeq: "filter (\<lambda>i. state_attrib dfa (sc_pam sc i) = CHR ''A'') [1..?m] = ?A"
    unfolding ns
  proof (rule filter_cong[OF refl])
    fix i assume "i \<in> set [1..?m]"
    then have "state_attrib out i = state_attrib dfa (sc_pam sc i)" using at by simp
    then show "(state_attrib dfa (sc_pam sc i) = CHR ''A'') = (state_attrib out i = CHR ''A'')"
      by simp
  qed
  have "length ?A \<le> length [1..nstates out]" by (rule length_filter_le)
  then have Ale: "int (length ?A) \<le> nstates out" using m1 ns by simp
  have A1: "\<forall>k. int (length ?A) \<le> k \<longrightarrow> accept out k = accept new k"
    using ak unfolding Aeq by blast
  have A2: "\<forall>k. 0 \<le> k \<and> k < int (length ?A)
                \<longrightarrow> 1 \<le> accept out k \<and> accept out k \<le> nstates out
                    \<and> state_attrib out (accept out k) = CHR ''A''"
  proof (intro allI impI)
    fix k assume "0 \<le> k \<and> k < int (length ?A)"
    then have "accept out k \<in> set ?A" using aw unfolding Aeq by blast
    then show "1 \<le> accept out k \<and> accept out k \<le> nstates out
                    \<and> state_attrib out (accept out k) = CHR ''A''" by simp
  qed
  have S1: "\<forall>x\<in>{1..?n}. 1 \<le> ?h x \<and> ?h x \<le> nstates out" using hS ns by auto
  have S2': "\<forall>s\<in>{1..?n}. \<forall>j\<in>{1..?k}. mat out (?h s) j = ?h (mat dfa s j)" using S2 .
  have b1: "1 \<le> nstates out \<and> nstates out \<le> ?n" using m1 mn ns by simp
  show ?thesis
    unfolding quotient_built_def
    apply (rule exI[of _ gf], rule exI[of _ sc], rule exI[of _ out])
    apply (intro conjI)
    apply (rule fp, rule can, rule cs, rule inv, rule cd, rule ns, rule na)
    apply (rule b1[THEN conjunct1], rule b1[THEN conjunct2], rule h0, rule S1, rule S2', rule S3)
    apply (rule ini, rule vout, rule Ale, rule A1, rule A2)
    done
qed

section \<open>Claims about the minimization pipeline\<close>

lemma minimize_dfa_language:
  assumes v: "valid_dfa dfa" and sent: "accept new MAX_STATES = 0" and w: "set w \<subseteq> {1..nab dfa}"
  shows "\<exists>c' min. minimize_dfa connected dfa new groups0 = Some (c', min)
           \<and> (accepts min w \<longleftrightarrow> accepts dfa w)"
proof -
  let ?n = "nstates dfa" and ?k = "nab dfa"
  have vm: "valid_mat (mat dfa) ?n ?k" and n1: "1 \<le> ?n" and nmax: "?n \<le> MAX_STATES"
    and i1: "init_state dfa = 1"
    using v by (simp_all add: valid_dfa_def)
  from compress_dfa_quotient[OF v, of groups0 new] obtain gf sc out where
    Q: "quotient_built dfa groups0 new gf sc out" by blast
  note Q' = Q[unfolded quotient_built_def]
  have fp: "final_partition dfa groups0 = Some gf" using Q' by blast
  have cd: "compress_dfa dfa new gf = Some out" using Q' by blast
  have na: "nab out = ?k" using Q' by blast
  have m1: "1 \<le> nstates out" using Q' by blast
  have mn: "nstates out \<le> ?n" using Q' by blast
  have h0: "sc_map sc (sc_rep sc 0) = 0" using Q' by blast
  have hS: "\<forall>x\<in>{1..?n}. 1 \<le> sc_map sc (sc_rep sc x) \<and> sc_map sc (sc_rep sc x) \<le> nstates out"
    using Q' by blast
  have tr: "\<forall>s\<in>{1..?n}. \<forall>j\<in>{1..?k}.
               mat out (sc_map sc (sc_rep sc s)) j = sc_map sc (sc_rep sc (mat dfa s j))"
    using Q' by blast
  have at: "\<forall>s\<in>{1..?n}.
               state_attrib out (sc_map sc (sc_rep sc s)) = CHR ''A'' \<longleftrightarrow> state_attrib dfa s = CHR ''A''"
    using Q' by blast
  have ini: "init_state out = sc_map sc (sc_rep sc (init_state dfa))" using Q' by blast
  have vout: "valid_mat (mat out) (nstates out) (nab out)" using Q' by blast
  have Ale: "int (length (filter (\<lambda>i. state_attrib out i = CHR ''A'') [1..nstates out])) \<le> nstates out"
    using Q' by blast
  have A1: "\<forall>k. int (length (filter (\<lambda>i. state_attrib out i = CHR ''A'') [1..nstates out])) \<le> k
                \<longrightarrow> accept out k = accept new k"
    using Q' by blast
  let ?m = "nstates out"
  let ?h = "\<lambda>x. sc_map sc (sc_rep sc x)"
  let ?conn = "t_closure ?m (init_connections (mat out) ?m (nab out) connected)"
  have "int (length (filter (\<lambda>i. state_attrib out i = CHR ''A'') [1..?m])) \<le> MAX_STATES"
    using Ale mn nmax by linarith
  then have s0: "accept out MAX_STATES = 0" using A1 sent by simp
  have mx: "0 \<le> MAX_STATES" by (simp add: MAX_STATES_def)
  from find_dead_states_result[OF s0 mx, of connected] obtain a' where
    fd: "find_dead_states connected out = Some (?conn, out\<lparr>state_attrib := a'\<rparr>)"
    and keepA: "\<forall>s. state_attrib out s = CHR ''A'' \<longrightarrow>
                   a' s = (if 1 \<le> s \<and> s \<le> ?m \<and> \<not> ?conn (init_state out) s
                           then CHR ''D'' else CHR ''A'')"
    and onlyA: "\<forall>s. a' s = CHR ''A'' \<longrightarrow> state_attrib out s = CHR ''A''"
    by blast
  let ?min = "out\<lparr>state_attrib := a'\<rparr>"
  have mn_eq: "minimize_dfa connected dfa new groups0 = Some (?conn, ?min)"
    using fp cd fd by (simp add: minimize_dfa_def)
  let ?q = "foldl (dfa_step (mat dfa)) 1 w"
  have one: "(1::int) \<in> {1..?n}" using n1 by simp
  have qr: "0 \<le> ?q \<and> ?q \<le> ?n"
    using run_in_range[OF vm, of 1 w] n1 w by simp
  have h1: "\<forall>x\<in>{1..?n}. 1 \<le> ?h x" using hS by blast
  have sim: "foldl (dfa_step (mat out)) (?h 1) w = ?h ?q"
    using run_simulation[OF vm h0 h1 tr, of 1 w] n1 w by simp
  have run_min: "run ?min w = ?h ?q" using sim ini i1 by (simp add: run_def)
  have run_dfa: "run dfa w = ?q" using i1 by (simp add: run_def)
  have "accepts ?min w \<longleftrightarrow> accepts dfa w"
  proof (cases "?q = 0")
    case True
    then have "?h ?q = 0" using h0 by simp
    then show ?thesis using True run_min run_dfa by (simp add: accepts_def)
  next
    case False
    then have q: "?q \<in> {1..?n}" using qr by simp
    have hq: "1 \<le> ?h ?q \<and> ?h ?q \<le> ?m" using hS q by blast
    have hone: "1 \<le> ?h 1 \<and> ?h 1 \<le> ?m" using hS one by blast
    have w': "set w \<subseteq> {1..nab out}" using w na by simp
    have "1 \<le> foldl (dfa_step (mat out)) (?h 1) w" using sim hq by simp
    from run_reachable[OF vout _ _ w' this] hone
    have "(?h 1, ?h ?q) \<in> (direct (mat out) ?m (nab out))\<^sup>*" using sim by simp
    moreover have "?conn (?h 1) (?h ?q) \<longleftrightarrow> (?h 1, ?h ?q) \<in> (direct (mat out) ?m (nab out))\<^sup>*"
      using hone hq by (intro closure_is_reachability[OF vout]) simp_all
    ultimately have conn: "?conn (init_state out) (?h ?q)" using ini i1 by simp
    have "a' (?h ?q) = CHR ''A'' \<longleftrightarrow> state_attrib out (?h ?q) = CHR ''A''"
    proof
      assume "a' (?h ?q) = CHR ''A''"
      then show "state_attrib out (?h ?q) = CHR ''A''" using onlyA by blast
    next
      assume "state_attrib out (?h ?q) = CHR ''A''"
      then have "a' (?h ?q) = (if 1 \<le> ?h ?q \<and> ?h ?q \<le> ?m \<and> \<not> ?conn (init_state out) (?h ?q)
                           then CHR ''D'' else CHR ''A'')" using keepA by blast
      then show "a' (?h ?q) = CHR ''A''" using conn by simp
    qed
    moreover have "state_attrib out (?h ?q) = CHR ''A'' \<longleftrightarrow> state_attrib dfa ?q = CHR ''A''"
      using at q by blast
    ultimately have "a' (?h ?q) = CHR ''A'' \<longleftrightarrow> state_attrib dfa ?q = CHR ''A''" by simp
    then show ?thesis using run_min run_dfa hq q by (simp add: accepts_def)
  qed
  with mn_eq show ?thesis by blast
qed

text \<open>
  C1.  For a valid input automaton, an output automaton whose accept array still has the
  zero of its last cell (it is static, and the program never writes that cell), and a
  word over the alphabet, \<open>minimize_dfa\<close> returns, and the automaton it leaves accepts the
  word exactly when the input automaton does.
\<close>

theorem minimize_dfa_preserves_language:
  assumes "valid_dfa dfa" and "accept new MAX_STATES = 0" and "set w \<subseteq> {1..nab dfa}"
  shows "\<exists>c' min. minimize_dfa connected dfa new groups0 = Some (c', min)
           \<and> (accepts min w \<longleftrightarrow> accepts dfa w)"
  using assms by (rule minimize_dfa_language)

lemma empty_dfa_sentinel: "accept empty_dfa MAX_STATES = 0"
  by (simp add: empty_dfa_def arr_of_def array_def)

lemma word_aa: "set [1, 1] \<subseteq> {1..nab collapse_dfa}"
  by (simp add: collapse_dfa_def)

theorem minimize_dfa_preserves_language_witness:
  "valid_dfa collapse_dfa \<and> accept empty_dfa MAX_STATES = 0 \<and> set [1, 1] \<subseteq> {1..nab collapse_dfa}
   \<and> (\<exists>c' min. minimize_dfa no_conn collapse_dfa empty_dfa zero_groups = Some (c', min)
           \<and> (accepts min [1, 1] \<longleftrightarrow> accepts collapse_dfa [1, 1]))"
  using collapse_dfa_valid empty_dfa_sentinel word_aa
    minimize_dfa_preserves_language[OF collapse_dfa_valid empty_dfa_sentinel word_aa,
      of no_conn zero_groups]
  by blast

subsection \<open>The output of compress_dfa\<close>

theorem compress_dfa_init_state_counterexample:
  "init_state twins_dfa = 1 \<and>
   map_option init_state
     (Option.bind (final_partition twins_dfa zero_groups) (compress_dfa twins_dfa empty_dfa))
     = Some 2"
  by code_simp

text \<open>
  C2 (amended).  For a valid input automaton and the partition the refiner ends with,
  the automaton \<open>compress_dfa\<close> builds has between 1 and \<open>in.nstates\<close> states and the
  alphabet of the input; every transition entry lies in \<open>{0} \<union> [1, out.nstates]\<close>; every id
  that \<open>compress_dfa\<close> writes into the accept list (cells \<open>0..k-1\<close>, \<open>k\<close> the number of
  accepting states of \<open>out\<close>) is a state of \<open>out\<close> with attribute \<open>'A'\<close>; and the initial state
  is \<open>map[rep[in.init_state]]\<close>, the new id of the class of the old initial state, which
  lies in \<open>[1, out.nstates]\<close>.
\<close>

theorem compress_dfa_output_invariants:
  assumes "valid_dfa dfa"
  shows "\<exists>gf sc out. final_partition dfa groups0 = Some gf
           \<and> compress_scan dfa gf = Some sc
           \<and> compress_dfa dfa new gf = Some out
           \<and> 1 \<le> nstates out \<and> nstates out \<le> nstates dfa \<and> nab out = nab dfa
           \<and> valid_mat (mat out) (nstates out) (nab out)
           \<and> (\<forall>k. 0 \<le> k \<and> k < int (length (filter (\<lambda>i. state_attrib out i = CHR ''A'') [1..nstates out]))
                  \<longrightarrow> 1 \<le> accept out k \<and> accept out k \<le> nstates out
                      \<and> state_attrib out (accept out k) = CHR ''A'')
           \<and> init_state out = sc_map sc (sc_rep sc (init_state dfa))
           \<and> 1 \<le> init_state out \<and> init_state out \<le> nstates out"
proof -
  from compress_dfa_quotient[OF assms, of groups0 new] obtain gf sc out where
    Q: "quotient_built dfa groups0 new gf sc out" by blast
  note Q' = Q[unfolded quotient_built_def]
  have i1: "init_state dfa = 1" and n1: "1 \<le> nstates dfa" using assms by (simp_all add: valid_dfa_def)
  have fp: "final_partition dfa groups0 = Some gf" using Q' by blast
  have cs: "compress_scan dfa gf = Some sc" using Q' by blast
  have cd: "compress_dfa dfa new gf = Some out" using Q' by blast
  have na: "nab out = nab dfa" using Q' by blast
  have m1: "1 \<le> nstates out" using Q' by blast
  have mn: "nstates out \<le> nstates dfa" using Q' by blast
  have hS: "\<forall>x\<in>{1..nstates dfa}. 1 \<le> sc_map sc (sc_rep sc x) \<and> sc_map sc (sc_rep sc x) \<le> nstates out"
    using Q' by blast
  have ini: "init_state out = sc_map sc (sc_rep sc (init_state dfa))" using Q' by blast
  have vout: "valid_mat (mat out) (nstates out) (nab out)" using Q' by blast
  have A2: "\<forall>k. 0 \<le> k \<and> k < int (length (filter (\<lambda>i. state_attrib out i = CHR ''A'') [1..nstates out]))
                \<longrightarrow> 1 \<le> accept out k \<and> accept out k \<le> nstates out
                    \<and> state_attrib out (accept out k) = CHR ''A''"
    using Q' by blast
  have "(1::int) \<in> {1..nstates dfa}" using n1 by simp
  then have "1 \<le> sc_map sc (sc_rep sc 1) \<and> sc_map sc (sc_rep sc 1) \<le> nstates out" using hS by blast
  then have ir: "1 \<le> init_state out \<and> init_state out \<le> nstates out" using ini i1 by simp
  show ?thesis
    apply (rule exI[of _ gf], rule exI[of _ sc], rule exI[of _ out])
    apply (intro conjI)
    apply (rule fp, rule cs, rule cd, rule m1, rule mn, rule na, rule vout, rule A2, rule ini)
    apply (rule ir[THEN conjunct1], rule ir[THEN conjunct2])
    done
qed

theorem compress_dfa_output_invariants_witness:
  "valid_dfa twins_dfa
   \<and> (\<exists>gf sc out. final_partition twins_dfa zero_groups = Some gf
           \<and> compress_scan twins_dfa gf = Some sc
           \<and> compress_dfa twins_dfa empty_dfa gf = Some out
           \<and> 1 \<le> nstates out \<and> nstates out \<le> nstates twins_dfa \<and> nab out = nab twins_dfa
           \<and> valid_mat (mat out) (nstates out) (nab out)
           \<and> (\<forall>k. 0 \<le> k \<and> k < int (length (filter (\<lambda>i. state_attrib out i = CHR ''A'') [1..nstates out]))
                  \<longrightarrow> 1 \<le> accept out k \<and> accept out k \<le> nstates out
                      \<and> state_attrib out (accept out k) = CHR ''A'')
           \<and> init_state out = sc_map sc (sc_rep sc (init_state twins_dfa))
           \<and> 1 \<le> init_state out \<and> init_state out \<le> nstates out)"
  using twins_dfa_valid compress_dfa_output_invariants[OF twins_dfa_valid, of zero_groups empty_dfa]
  by blast

text \<open>
  C5.  \<open>compress_dfa\<close> writes the ids of the accepting states and nothing after them.  Run
  on \<open>countdown_dfa\<close> and then on \<open>dead_end_dfa\<close> with the same output automaton, as the
  program does for two input files, it leaves \<open>accept[0] = 2\<close>, the one accepting state of
  the second output, followed by \<open>accept[1] = 3\<close> from the first run, not by 0.
\<close>

theorem compress_dfa_leaves_stale_accept_cell:
  "map_option (\<lambda>out. map (accept out) [0..2])
     (Option.bind
        (Option.bind (final_partition countdown_dfa zero_groups)
           (compress_dfa countdown_dfa empty_dfa))
        (\<lambda>out1. Option.bind (final_partition dead_end_dfa zero_groups)
                  (compress_dfa dead_end_dfa out1)))
     = Some [2, 3, 0]"
  by code_simp

subsection \<open>The representatives compress_dfa keeps\<close>

lemma chain_root_flat:
  assumes "g x > 0 \<longrightarrow> g (g x) \<le> 0"
  shows "chain_root g x (flat_root g x)"
proof (cases "g x > 0")
  case True
  with assms have "g (g x) \<le> 0" by blast
  then have "chain_root g (g x) (g x)" by (rule chain_root.at_root)
  with True have "chain_root g x (g x)" by (rule chain_root.up)
  moreover have "flat_root g x = g x" using True by (simp add: flat_root_def)
  ultimately show ?thesis by simp
next
  case False
  then have "g x \<le> 0" by simp
  then have "chain_root g x x" by (rule chain_root.at_root)
  moreover have "flat_root g x = x" using False by (simp add: flat_root_def)
  ultimately show ?thesis by simp
qed

lemma chain_root_flat_iff:
  assumes "flat_on n g" and "1 \<le> x" and "x \<le> n"
  shows "chain_root g x r \<longleftrightarrow> flat_root g x = r"
proof -
  have "chain_root g x (flat_root g x)"
    using assms by (intro chain_root_flat) (simp add: flat_on_def)
  then show ?thesis using chain_root_unique by blast
qed

lemma root_is_second_smallest:
  assumes can: "canonical_on [1..n] g" and r: "1 \<le> r" "r \<le> n" and root: "flat_root g r = r"
  shows "card {x. 1 \<le> x \<and> x \<le> n \<and> flat_root g x = r \<and> x < r}
           = (if \<exists>x. 1 \<le> x \<and> x \<le> n \<and> x \<noteq> r \<and> flat_root g x = r then 1 else 0)"
proof -
  let ?C = "klass (flat_root g) [1..n] r"
  have cells: "\<forall>x\<in>set [1..n]. g x = canon_cell (flat_root g) [1..n] x"
    using can by (rule canonical_on_cells)
  have rs: "r \<in> set [1..n]" using r by simp
  have rC: "r \<in> set ?C" using rs by (rule klass_mem)
  have gr: "g r = star_cell ?C r" using cells rs by (simp add: canon_cell_def)
  have gle: "g r \<le> 0"
  proof (rule ccontr)
    assume "\<not> g r \<le> 0"
    then have "g r > 0" by simp
    then have "flat_root g r = g r" by (simp add: flat_root_def)
    with root have "g r = r" by simp
    moreover from canon_parent[OF upto_pos cells rs \<open>g r > 0\<close>] have "g (g r) < 0" by simp
    ultimately show False using \<open>g r > 0\<close> by simp
  qed
  have mem: "\<And>x. x \<in> set ?C \<longleftrightarrow> 1 \<le> x \<and> x \<le> n \<and> flat_root g x = r"
    unfolding klass_def root by auto
  have srt: "sorted_wrt (<) ?C" unfolding klass_def by (intro sorted_wrt_filter) simp
  from star_cell_cases[OF rC] show ?thesis
  proof
    assume "star_cell ?C r = 0 \<and> ?C = [r]"
    then have C: "?C = [r]" by simp
    have only: "\<And>x. 1 \<le> x \<and> x \<le> n \<and> flat_root g x = r \<Longrightarrow> x = r"
      using mem C by (metis list.set_cases list.inject list.distinct(1) set_ConsD empty_iff empty_set)
    have e: "\<And>x. \<not> (1 \<le> x \<and> x \<le> n \<and> flat_root g x = r \<and> x < r)"
    proof
      fix x assume a: "1 \<le> x \<and> x \<le> n \<and> flat_root g x = r \<and> x < r"
      then have "x = r" using only by blast
      with a show False by simp
    qed
    then have z: "{x. 1 \<le> x \<and> x \<le> n \<and> flat_root g x = r \<and> x < r} = {}" by blast
    have nz: "\<not> (\<exists>x. 1 \<le> x \<and> x \<le> n \<and> x \<noteq> r \<and> flat_root g x = r)" using only by blast
    show ?thesis by (simp only: z nz if_False card.empty)
  next
    assume "\<exists>a b rest. ?C = a # b # rest \<and>
             (if r = b then star_cell ?C r = - 1 - int (length rest) else star_cell ?C r = b)"
    then obtain a b rest where C: "?C = a # b # rest"
      and sc: "if r = b then star_cell ?C r = - 1 - int (length rest) else star_cell ?C r = b"
      by blast
    have bC: "b \<in> set ?C" using C by simp
    then have "1 \<le> b" using mem by blast
    have rb: "r = b"
    proof (rule ccontr)
      assume "r \<noteq> b"
      with sc have "star_cell ?C r = b" by simp
      with gr gle \<open>1 \<le> b\<close> show False by simp
    qed
    from srt C have ab: "a < b" and rest: "\<forall>y\<in>set rest. b < y" by auto
    have "{x. 1 \<le> x \<and> x \<le> n \<and> flat_root g x = r \<and> x < r} = {x \<in> set ?C. x < r}"
      using mem by auto
    also have "\<dots> = {x \<in> insert a (insert b (set rest)). x < b}" using C rb by simp
    also have "\<dots> = {a}" using ab rest by auto
    finally have c1: "card {x. 1 \<le> x \<and> x \<le> n \<and> flat_root g x = r \<and> x < r} = 1" by simp
    have "a \<in> set ?C" using C by simp
    then have "1 \<le> a \<and> a \<le> n \<and> flat_root g a = r" using mem by blast
    moreover have "a \<noteq> r" using ab rb by simp
    ultimately have ex: "\<exists>x. 1 \<le> x \<and> x \<le> n \<and> x \<noteq> r \<and> flat_root g x = r" by blast
    show ?thesis by (simp only: c1 ex if_True)
  qed
qed

theorem compress_dfa_representative_counterexample:
  "map_option (cells 3) (final_partition twins_dfa zero_groups) = Some [3, 0, - 1]
   \<and> map_option (cells 2 \<circ> sc_pam)
       (Option.bind (final_partition twins_dfa zero_groups) (compress_scan twins_dfa))
     = Some [2, 3]"
  by code_simp

text \<open>
  C3 (amended).  For the partition the refiner ends with on a valid input automaton, every
  equivalence class gets exactly one new id: each state \<open>x\<close> has a kept representative
  \<open>rep[x] = pam[k]\<close>, and every state that is its own \<open>find\<close> root is \<open>pam[k]\<close> for some new
  id \<open>k\<close>.  The representative that \<open>compress_dfa\<close> keeps for an equivalence class (the old
  state id \<open>pam[k]\<close> that receives the new id \<open>k\<close> through \<open>map\<close>) is the member of the class
  that is its own \<open>find\<close> root; when the class has two or more members this is the member
  with the second smallest internal id (exactly one member is smaller), and otherwise the
  only member.
\<close>

theorem compress_dfa_keeps_the_root_of_each_class:
  assumes "valid_dfa dfa"
  shows "\<exists>gf sc. final_partition dfa groups0 = Some gf \<and> compress_scan dfa gf = Some sc
           \<and> (\<forall>x\<in>{1..nstates dfa}. \<exists>k\<in>{1..rep_count sc}.
                  sc_rep sc x = sc_pam sc k \<and> chain_root gf x (sc_pam sc k))
           \<and> (\<forall>r\<in>{1..nstates dfa}. chain_root gf r r \<longrightarrow> (\<exists>k\<in>{1..rep_count sc}. sc_pam sc k = r))
           \<and> (\<forall>k\<in>{1..rep_count sc}.
                  1 \<le> sc_pam sc k \<and> sc_pam sc k \<le> nstates dfa
                  \<and> sc_map sc (sc_pam sc k) = k
                  \<and> chain_root gf (sc_pam sc k) (sc_pam sc k)
                  \<and> card {x. 1 \<le> x \<and> x \<le> nstates dfa \<and> chain_root gf x (sc_pam sc k) \<and> x < sc_pam sc k}
                      = (if \<exists>x. 1 \<le> x \<and> x \<le> nstates dfa \<and> x \<noteq> sc_pam sc k
                                 \<and> chain_root gf x (sc_pam sc k)
                         then 1 else 0))"
proof -
  let ?n = "nstates dfa"
  from compress_dfa_quotient[OF assms, of groups0 empty_dfa] obtain gf sc out where
    Q: "quotient_built dfa groups0 empty_dfa gf sc out" by blast
  note Q' = Q[unfolded quotient_built_def]
  have n1: "1 \<le> ?n" using assms by (simp add: valid_dfa_def)
  have fp: "final_partition dfa groups0 = Some gf" using Q' by blast
  have can: "canonical_on [1..?n] gf" using Q' by blast
  have cs: "compress_scan dfa gf = Some sc" using Q' by blast
  have inv: "scan_inv gf [1..?n] sc" using Q' by blast
  have n0: "0 \<le> ?n" using n1 by simp
  note T = scan_tables[OF can inv n0]
  have fl: "flat_on ?n gf" using can by (rule canonical_flat_on)
  have cr: "\<And>x r. 1 \<le> x \<and> x \<le> ?n \<Longrightarrow> chain_root gf x r \<longleftrightarrow> flat_root gf x = r"
    using chain_root_flat_iff[OF fl] by blast
  have every: "\<forall>x\<in>{1..?n}. \<exists>k\<in>{1..rep_count sc}.
                  sc_rep sc x = sc_pam sc k \<and> chain_root gf x (sc_pam sc k)"
  proof
    fix x assume x: "x \<in> {1..?n}"
    let ?k = "sc_map sc (sc_rep sc x)"
    from T(2) x have rp: "sc_rep sc x = flat_root gf x"
      and k1: "1 \<le> ?k" and k2: "?k \<le> rep_count sc"
      and pk: "sc_pam sc ?k = flat_root gf x" by blast+
    have x12: "1 \<le> x \<and> x \<le> ?n" using x by simp
    have "chain_root gf x (flat_root gf x)" using cr[OF x12, of "flat_root gf x"] by simp
    then have c: "chain_root gf x (sc_pam sc ?k)" by (simp only: pk)
    have e: "sc_rep sc x = sc_pam sc ?k" using pk rp by simp
    have kin: "?k \<in> {1..rep_count sc}" using k1 k2 by simp
    from kin e c show "\<exists>k\<in>{1..rep_count sc}. sc_rep sc x = sc_pam sc k \<and> chain_root gf x (sc_pam sc k)"
      by blast
  qed
  have roots: "\<forall>r\<in>{1..?n}. chain_root gf r r \<longrightarrow> (\<exists>k\<in>{1..rep_count sc}. sc_pam sc k = r)"
  proof (intro ballI impI)
    fix r assume r: "r \<in> {1..?n}" and rr: "chain_root gf r r"
    from every r obtain k where kin: "k \<in> {1..rep_count sc}"
      and c: "chain_root gf r (sc_pam sc k)" by blast
    from c rr have "sc_pam sc k = r" by (rule chain_root_unique)
    with kin show "\<exists>k\<in>{1..rep_count sc}. sc_pam sc k = r" by blast
  qed
  have kept: "\<forall>k\<in>{1..rep_count sc}.
                  1 \<le> sc_pam sc k \<and> sc_pam sc k \<le> ?n
                  \<and> sc_map sc (sc_pam sc k) = k
                  \<and> chain_root gf (sc_pam sc k) (sc_pam sc k)
                  \<and> card {x. 1 \<le> x \<and> x \<le> ?n \<and> chain_root gf x (sc_pam sc k) \<and> x < sc_pam sc k}
                      = (if \<exists>x. 1 \<le> x \<and> x \<le> ?n \<and> x \<noteq> sc_pam sc k
                                 \<and> chain_root gf x (sc_pam sc k)
                         then 1 else 0)"
  proof
    fix k assume k: "k \<in> {1..rep_count sc}"
    let ?r = "sc_pam sc k"
    from T(3) k have r1: "1 \<le> ?r" and r2: "?r \<le> ?n" and rr: "flat_root gf ?r = ?r"
      and mk: "sc_map sc ?r = k" by blast+
    have c1: "chain_root gf ?r ?r" using cr[of ?r ?r] r1 r2 rr by simp
    have s1: "{x. 1 \<le> x \<and> x \<le> ?n \<and> chain_root gf x ?r \<and> x < ?r}
                = {x. 1 \<le> x \<and> x \<le> ?n \<and> flat_root gf x = ?r \<and> x < ?r}"
      using cr by blast
    have s2: "(\<exists>x. 1 \<le> x \<and> x \<le> ?n \<and> x \<noteq> ?r \<and> chain_root gf x ?r)
                \<longleftrightarrow> (\<exists>x. 1 \<le> x \<and> x \<le> ?n \<and> x \<noteq> ?r \<and> flat_root gf x = ?r)"
      using cr by blast
    have "card {x. 1 \<le> x \<and> x \<le> ?n \<and> chain_root gf x ?r \<and> x < ?r}
                      = (if \<exists>x. 1 \<le> x \<and> x \<le> ?n \<and> x \<noteq> ?r \<and> chain_root gf x ?r then 1 else 0)"
      unfolding s1 s2 using can r1 r2 rr by (rule root_is_second_smallest)
    with r1 r2 mk c1 show "1 \<le> ?r \<and> ?r \<le> ?n \<and> sc_map sc ?r = k \<and> chain_root gf ?r ?r
                  \<and> card {x. 1 \<le> x \<and> x \<le> ?n \<and> chain_root gf x ?r \<and> x < ?r}
                      = (if \<exists>x. 1 \<le> x \<and> x \<le> ?n \<and> x \<noteq> ?r \<and> chain_root gf x ?r then 1 else 0)"
      by blast
  qed
  from fp cs every roots kept show ?thesis by blast
qed

theorem compress_dfa_keeps_the_root_of_each_class_witness:
  "valid_dfa twins_dfa
   \<and> (\<exists>gf sc. final_partition twins_dfa zero_groups = Some gf \<and> compress_scan twins_dfa gf = Some sc
           \<and> (\<forall>x\<in>{1..nstates twins_dfa}. \<exists>k\<in>{1..rep_count sc}.
                  sc_rep sc x = sc_pam sc k \<and> chain_root gf x (sc_pam sc k))
           \<and> (\<forall>r\<in>{1..nstates twins_dfa}. chain_root gf r r \<longrightarrow> (\<exists>k\<in>{1..rep_count sc}. sc_pam sc k = r))
           \<and> (\<forall>k\<in>{1..rep_count sc}.
                  1 \<le> sc_pam sc k \<and> sc_pam sc k \<le> nstates twins_dfa
                  \<and> sc_map sc (sc_pam sc k) = k
                  \<and> chain_root gf (sc_pam sc k) (sc_pam sc k)
                  \<and> card {x. 1 \<le> x \<and> x \<le> nstates twins_dfa \<and> chain_root gf x (sc_pam sc k) \<and> x < sc_pam sc k}
                      = (if \<exists>x. 1 \<le> x \<and> x \<le> nstates twins_dfa \<and> x \<noteq> sc_pam sc k
                                 \<and> chain_root gf x (sc_pam sc k)
                         then 1 else 0)))"
  using twins_dfa_valid compress_dfa_keeps_the_root_of_each_class[OF twins_dfa_valid, of zero_groups]
  by blast

end
